theory Spec2Isabelle
  imports Main "HOL-Library.Sublist" "HOL-Library.Multiset"
begin

text \<open>
  The program is \<open>src/PredictedProcess.ts\<close>: the class \<open>PredictedProcess\<close>, a command
  run as a child process under an optional \<open>AbortSignal\<close>, and the class
  \<open>PredictedProcessesManager\<close>, a list of such tasks that \<open>runAll\<close> runs together. The
  program is driven by events: a call attaches listeners and returns a promise, and the
  promise settles when the executor or the signal emits an event later. The model is a
  store of the objects and one function for each call and each event.
\<close>

section \<open>Values of the host platform\<close>

text \<open>
  A JavaScript \<open>Error\<close> is its message. A promise is pending, resolved (with no value:
  every promise of the program is a \<open>Promise<void>\<close>) or rejected with an error.
\<close>

datatype error = Error string

fun message :: "error \<Rightarrow> string" where
  "message (Error m) = m"

datatype promise = Pending | Resolved | Rejected error

text \<open>
  Template literals render a number in decimal and \<open>null\<close> as the word \<open>null\<close>.
  Task ids and exit codes are integers here.
\<close>

fun show_nat :: "nat \<Rightarrow> string" where
  "show_nat n =
     (if n < 10 then [''0123456789'' ! n]
      else show_nat (n div 10) @ [''0123456789'' ! (n mod 10)])"

declare show_nat.simps [simp del]

definition show_int :: "int \<Rightarrow> string" where
  "show_int i = (if i < 0 then ''-'' @ show_nat (nat (- i)) else show_nat (nat i))"

fun show_code :: "int option \<Rightarrow> string" where
  "show_code None = ''null''"
| "show_code (Some n) = show_int n"

fun show_signal :: "string option \<Rightarrow> string" where
  "show_signal None = ''null''"
| "show_signal (Some s) = s"

fun join :: "string \<Rightarrow> string list \<Rightarrow> string" where
  "join sep [] = []"
| "join sep [x] = x"
| "join sep (x # y # ys) = x @ sep @ join sep (y # ys)"

section \<open>Objects\<close>

text \<open>
  Objects live in a store and are named by their index in it: tasks
  (\<open>PredictedProcess\<close>), managers (\<open>PredictedProcessesManager\<close>), child processes
  (the handles \<open>spawn\<close> returns), abort signals, promises, and one frame for each call of
  \<open>runAll\<close> (its parameter \<open>signal\<close>, its locals \<open>promises\<close> and \<open>errors\<close>,
  and the promise it returns; each promise of \<open>promises\<close> is kept with the process
  spawned for it, as an entry).

  A listener is a closure of the source, named by the place it is created at and the
  objects it captures:
  \<^item> \<open>OnExit t p\<close>: \<open>onExit\<close> of \<open>run\<close> on task \<open>t\<close>, holding \<open>resolve\<close>/\<open>reject\<close> of \<open>p\<close>;
  \<^item> \<open>RemoveOnAbort s c\<close>: the second exit listener of \<open>run\<close>, which removes
    \<open>onAbort\<close> of child \<open>c\<close> from signal \<open>s\<close>;
  \<^item> \<open>OnClose i p\<close>: the close listener of \<open>runAll\<close> for the task with id \<open>i\<close>;
  \<^item> \<open>RejectOnError p\<close>: the error listener of \<open>run\<close> and of \<open>runAll\<close>;
  \<^item> \<open>OnAbort c\<close>: \<open>onAbort\<close> of \<open>run\<close>; \<open>GroupAbort c p\<close>: the abort listener of
    \<open>runAll\<close>.
\<close>

datatype exit_listener = OnExit nat nat | RemoveOnAbort nat nat
datatype close_listener = OnClose int nat
datatype error_listener = RejectOnError nat
datatype abort_listener = OnAbort nat | GroupAbort nat nat

record predicted_process =
  proc_id :: int
  command :: string
  childProcess :: "nat option"
  isRunning :: bool

record predicted_processes_manager =
  processes :: "nat list"

text \<open>
  Of a child process the model keeps the command it was spawned with, the listeners
  attached to it, the signals \<open>kill\<close> has sent to it, and whether it has emitted
  \<open>exit\<close>, \<open>close\<close> and \<open>error\<close>.
\<close>

record child_process =
  spawned_command :: string
  exit_listeners :: "exit_listener list"
  close_listeners :: "close_listener list"
  error_listeners :: "error_listener list"
  kill_requests :: "string list"
  exited :: bool
  closed :: bool
  errored :: bool

record abort_signal =
  aborted :: bool
  abort_listeners :: "abort_listener list"

record run_all_frame =
  frame_signal :: "nat option"
  entries :: "(nat \<times> nat) list"
  errors :: "error list"
  outcome :: promise

record world =
  tasks :: "predicted_process list"
  managers :: "predicted_processes_manager list"
  children :: "child_process list"
  signals :: "abort_signal list"
  promises :: "promise list"
  frames :: "run_all_frame list"

definition empty_world :: world where
  "empty_world =
     \<lparr>tasks = [], managers = [], children = [], signals = [], promises = [], frames = []\<rparr>"

definition update_task :: "nat \<Rightarrow> (predicted_process \<Rightarrow> predicted_process) \<Rightarrow> world \<Rightarrow> world" where
  "update_task t f w = w\<lparr>tasks := (tasks w)[t := f (tasks w ! t)]\<rparr>"

definition update_child :: "nat \<Rightarrow> (child_process \<Rightarrow> child_process) \<Rightarrow> world \<Rightarrow> world" where
  "update_child c f w = w\<lparr>children := (children w)[c := f (children w ! c)]\<rparr>"

definition update_signal :: "nat \<Rightarrow> (abort_signal \<Rightarrow> abort_signal) \<Rightarrow> world \<Rightarrow> world" where
  "update_signal s f w = w\<lparr>signals := (signals w)[s := f (signals w ! s)]\<rparr>"

section \<open>Promises\<close>

definition new_promise :: "promise \<Rightarrow> world \<Rightarrow> nat \<times> world" where
  "new_promise st w = (length (promises w), w\<lparr>promises := promises w @ [st]\<rparr>)"

text \<open>\<open>resolve\<close> and \<open>reject\<close> act on a pending promise only.\<close>

definition resolve :: "nat \<Rightarrow> world \<Rightarrow> world" where
  "resolve p w =
     (if promises w ! p = Pending then w\<lparr>promises := (promises w)[p := Resolved]\<rparr> else w)"

text \<open>
  \<open>runAll\<close> attaches \<open>catch((error) => errors.push(error))\<close> to every promise of its
  \<open>promises\<close> array, so a rejection is pushed on the \<open>errors\<close> of the frame the promise
  belongs to, in the order of the rejections.
\<close>

definition push_error :: "nat \<Rightarrow> error \<Rightarrow> run_all_frame \<Rightarrow> run_all_frame" where
  "push_error p e f =
     (if p \<in> snd ` set (entries f) then f\<lparr>errors := errors f @ [e]\<rparr> else f)"

definition reject :: "nat \<Rightarrow> error \<Rightarrow> world \<Rightarrow> world" where
  "reject p e w =
     (if promises w ! p = Pending
      then w\<lparr>promises := (promises w)[p := Rejected e],
             frames := map (push_error p e) (frames w)\<rparr>
      else w)"

text \<open>
  The tail of \<open>runAll\<close>: once every promise of the frame is settled
  (\<open>Promise.allSettled\<close>), the call throws when \<open>errors\<close> is not empty and returns
  otherwise.
\<close>

definition batch_error :: "error list \<Rightarrow> error" where
  "batch_error es =
     Error (''At least one process has exited with an error:'' @ [CHR 0x0A]
            @ join [CHR 0x0A] (map message es))"

definition settle_frame :: "promise list \<Rightarrow> run_all_frame \<Rightarrow> run_all_frame" where
  "settle_frame ps f =
     (if outcome f = Pending \<and> (\<forall>p \<in> snd ` set (entries f). ps ! p \<noteq> Pending)
      then f\<lparr>outcome := (if errors f = [] then Resolved else Rejected (batch_error (errors f)))\<rparr>
      else f)"

definition settle_frames :: "world \<Rightarrow> world" where
  "settle_frames w = w\<lparr>frames := map (settle_frame (promises w)) (frames w)\<rparr>"

section \<open>The process executor\<close>

definition spawn :: "string \<Rightarrow> world \<Rightarrow> nat \<times> world" where
  "spawn cmd w =
     (length (children w),
      w\<lparr>children := children w @
          [\<lparr>spawned_command = cmd, exit_listeners = [], close_listeners = [],
            error_listeners = [], kill_requests = [], exited = False, closed = False,
            errored = False\<rparr>]\<rparr>)"

text \<open>
  \<open>ChildProcess.kill\<close> of the platform sends the signal unless the process has exited;
  the model records the signals sent. \<open>removeAllListeners\<close> detaches every listener of
  the process.
\<close>

definition kill :: "nat \<Rightarrow> string \<Rightarrow> world \<Rightarrow> world" where
  "kill c sg w =
     (if exited (children w ! c) then w
      else update_child c (\<lambda>ch. ch\<lparr>kill_requests := kill_requests ch @ [sg]\<rparr>) w)"

definition removeAllListeners :: "nat \<Rightarrow> world \<Rightarrow> world" where
  "removeAllListeners c w =
     update_child c
       (\<lambda>ch. ch\<lparr>exit_listeners := [], close_listeners := [], error_listeners := []\<rparr>) w"

section \<open>PredictedProcess\<close>

text \<open>The constructor: a task with its id and command, not running, with no process.\<close>

definition new_process :: "int \<Rightarrow> string \<Rightarrow> world \<Rightarrow> nat \<times> world" where
  "new_process i cmd w =
     (length (tasks w),
      w\<lparr>tasks := tasks w @
          [\<lparr>proc_id = i, command = cmd, childProcess = None, isRunning = False\<rparr>]\<rparr>)"

text \<open>
  \<open>run\<close> (lines 36 to 95) returns the promise of the call. An \<open>async\<close> function that
  throws returns a promise that is already rejected: so do the two checks at its head.
  Otherwise it sets the running flag, spawns the process, keeps it, and attaches
  \<open>onExit\<close>, under a signal \<open>onAbort\<close> and the exit listener that removes it, and the
  error listener, in this order.
\<close>

definition run :: "nat \<Rightarrow> nat option \<Rightarrow> world \<Rightarrow> nat \<times> world" where
  "run t signal w =
     (if (case signal of None \<Rightarrow> False | Some s \<Rightarrow> aborted (signals w ! s))
      then new_promise (Rejected (Error ''AbortSignal already aborted'')) w
      else if isRunning (tasks w ! t)
      then new_promise (Rejected (Error ''Process is already running'')) w
      else
        let w1 = update_task t (\<lambda>x. x\<lparr>isRunning := True\<rparr>) w;
            (p, w2) = new_promise Pending w1;
            (c, w3) = spawn (command (tasks w2 ! t)) w2;
            w4 = update_task t (\<lambda>x. x\<lparr>childProcess := Some c\<rparr>) w3;
            w5 = update_child c (\<lambda>ch. ch\<lparr>exit_listeners := exit_listeners ch @ [OnExit t p]\<rparr>) w4;
            w6 = (case signal of
                    None \<Rightarrow> w5
                  | Some s \<Rightarrow>
                      update_child c
                        (\<lambda>ch. ch\<lparr>exit_listeners := exit_listeners ch @ [RemoveOnAbort s c]\<rparr>)
                        (update_signal s
                          (\<lambda>x. x\<lparr>abort_listeners := abort_listeners x @ [OnAbort c]\<rparr>) w5));
            w7 = update_child c
                   (\<lambda>ch. ch\<lparr>error_listeners := error_listeners ch @ [RejectOnError p]\<rparr>) w6
        in (p, w7))"

text \<open>
  \<open>memoize\<close> (lines 125 to 134) makes a new task of the same id and command and resets
  its two fields; it keeps no cache.
\<close>

definition memoize :: "nat \<Rightarrow> world \<Rightarrow> nat \<times> world" where
  "memoize t w =
     (let (m, w1) = new_process (proc_id (tasks w ! t)) (command (tasks w ! t)) w
      in (m, update_task m (\<lambda>x. x\<lparr>childProcess := None, isRunning := False\<rparr>) w1))"

section \<open>Listeners\<close>

text \<open>
  What each listener does when it is called. An exit and a close listener get the exit
  code and the signal that ended the process, each \<open>null\<close> (\<open>None\<close>) when absent.
  \<open>onExit\<close> is lines 58 to 72 and the removal of \<open>onAbort\<close> lines 85 to 87; the close
  listener of \<open>runAll\<close> is lines 212 to 218; the error listeners are lines 91 to 93 and
  220 to 222; \<open>onAbort\<close> is lines 79 to 81 and the abort listener of \<open>runAll\<close> lines
  225 to 228, where \<open>kill()\<close> sends the default signal SIGTERM.
\<close>

fun call_exit :: "int option \<Rightarrow> string option \<Rightarrow> exit_listener \<Rightarrow> world \<Rightarrow> world" where
  "call_exit code sg (OnExit t p) w =
     (let w1 = (case childProcess (tasks w ! t) of
                  None \<Rightarrow> w
                | Some c \<Rightarrow> removeAllListeners c w);
          w2 = update_task t (\<lambda>x. x\<lparr>childProcess := None\<rparr>) w1;
          w3 = update_task t (\<lambda>x. x\<lparr>isRunning := False\<rparr>) w2
      in if code = Some 0 then resolve p w3
         else if sg = Some ''SIGABRT'' \<or> sg = None
         then reject p (Error (''Process aborted with signal: '' @ show_signal sg)) w3
         else reject p (Error (''Process failed with code '' @ show_code code)) w3)"
| "call_exit code sg (RemoveOnAbort s c) w =
     update_signal s (\<lambda>x. x\<lparr>abort_listeners := removeAll (OnAbort c) (abort_listeners x)\<rparr>) w"

fun call_close :: "int option \<Rightarrow> string option \<Rightarrow> close_listener \<Rightarrow> world \<Rightarrow> world" where
  "call_close code sg (OnClose i p) w =
     (if code = Some 0 then resolve p w
      else reject p
             (Error (''Process '' @ show_int i @ '' exited with code '' @ show_code code)) w)"

fun call_error :: "error \<Rightarrow> error_listener \<Rightarrow> world \<Rightarrow> world" where
  "call_error err (RejectOnError p) w = reject p err w"

fun call_abort :: "abort_listener \<Rightarrow> world \<Rightarrow> world" where
  "call_abort (OnAbort c) w = kill c ''SIGABRT'' w"
| "call_abort (GroupAbort c p) w = reject p (Error ''AbortSignal triggered'') (kill c ''SIGTERM'' w)"

section \<open>Events\<close>

text \<open>
  An event runs the listeners attached at the moment it is emitted, in the order they
  were attached; a listener attached with \<open>once\<close> is detached as it runs. After the
  listeners, the pending reactions run: the frames whose promises are all settled settle.
\<close>

definition emit_exit :: "nat \<Rightarrow> int option \<Rightarrow> string option \<Rightarrow> world \<Rightarrow> world" where
  "emit_exit c code sg w =
     (let ls = exit_listeners (children w ! c);
          w1 = update_child c (\<lambda>ch. ch\<lparr>exited := True, exit_listeners := []\<rparr>) w
      in settle_frames (fold (call_exit code sg) ls w1))"

definition emit_close :: "nat \<Rightarrow> int option \<Rightarrow> string option \<Rightarrow> world \<Rightarrow> world" where
  "emit_close c code sg w =
     (let ls = close_listeners (children w ! c);
          w1 = update_child c (\<lambda>ch. ch\<lparr>closed := True\<rparr>) w
      in settle_frames (fold (call_close code sg) ls w1))"

definition emit_error :: "nat \<Rightarrow> error \<Rightarrow> world \<Rightarrow> world" where
  "emit_error c err w =
     (let ls = error_listeners (children w ! c);
          w1 = update_child c (\<lambda>ch. ch\<lparr>errored := True\<rparr>) w
      in settle_frames (fold (call_error err) ls w1))"

definition new_signal :: "world \<Rightarrow> nat \<times> world" where
  "new_signal w =
     (length (signals w), w\<lparr>signals := signals w @ [\<lparr>aborted = False, abort_listeners = []\<rparr>]\<rparr>)"

definition abort :: "nat \<Rightarrow> world \<Rightarrow> world" where
  "abort s w =
     (if aborted (signals w ! s) then w
      else settle_frames
             (fold call_abort (abort_listeners (signals w ! s))
                (update_signal s (\<lambda>x. x\<lparr>aborted := True\<rparr>) w)))"

section \<open>PredictedProcessesManager\<close>

text \<open>
  The constructor copies the list it is given; \<open>addProcess\<close>, \<open>removeProcess\<close> and
  \<open>getProcess\<close> are lines 150 to 162. The first two return \<open>this\<close>, the manager they
  were called on.
\<close>

definition new_manager :: "nat list \<Rightarrow> world \<Rightarrow> nat \<times> world" where
  "new_manager ps w = (length (managers w), w\<lparr>managers := managers w @ [\<lparr>processes = ps\<rparr>]\<rparr>)"

definition addProcess :: "nat \<Rightarrow> nat \<Rightarrow> world \<Rightarrow> nat \<times> world" where
  "addProcess m t w =
     (m, w\<lparr>managers := (managers w)[m := \<lparr>processes = processes (managers w ! m) @ [t]\<rparr>]\<rparr>)"

definition removeProcess :: "nat \<Rightarrow> int \<Rightarrow> world \<Rightarrow> nat \<times> world" where
  "removeProcess m i w =
     (m, w\<lparr>managers := (managers w)
             [m := \<lparr>processes = filter (\<lambda>t. proc_id (tasks w ! t) \<noteq> i)
                                  (processes (managers w ! m))\<rparr>]\<rparr>)"

definition getProcess :: "nat \<Rightarrow> int \<Rightarrow> world \<Rightarrow> nat option" where
  "getProcess m i w = find (\<lambda>t. proc_id (tasks w ! t) = i) (processes (managers w ! m))"

text \<open>
  The body of the loop of \<open>runAll\<close>: a promise and a spawned process for the task,
  with the close, error and (under a signal) abort listeners. The loop returns the
  spawned processes and their promises in the order of the tasks.
\<close>

definition spawn_one :: "nat option \<Rightarrow> nat \<Rightarrow> world \<Rightarrow> (nat \<times> nat) \<times> world" where
  "spawn_one signal t w =
     (let (p, w1) = new_promise Pending w;
          (c, w2) = spawn (command (tasks w1 ! t)) w1;
          w3 = update_child c
                 (\<lambda>ch. ch\<lparr>close_listeners :=
                            close_listeners ch @ [OnClose (proc_id (tasks w2 ! t)) p]\<rparr>) w2;
          w4 = update_child c
                 (\<lambda>ch. ch\<lparr>error_listeners := error_listeners ch @ [RejectOnError p]\<rparr>) w3;
          w5 = (case signal of
                  None \<Rightarrow> w4
                | Some s \<Rightarrow>
                    update_signal s
                      (\<lambda>x. x\<lparr>abort_listeners := abort_listeners x @ [GroupAbort c p]\<rparr>) w4)
      in ((c, p), w5))"

fun spawn_all :: "nat option \<Rightarrow> nat list \<Rightarrow> world \<Rightarrow> (nat \<times> nat) list \<times> world" where
  "spawn_all signal [] w = ([], w)"
| "spawn_all signal (t # ts) w =
     (let (cp, w1) = spawn_one signal t w;
          (cps, w2) = spawn_all signal ts w1
      in (cp # cps, w2))"

text \<open>
  \<open>runAll\<close> (lines 205 to 243) runs the loop over the tasks of the manager, attaches
  the \<open>catch\<close> that collects the errors, and waits for all the promises. It returns its
  frame, whose outcome is the promise of the call; with no task the call settles at
  once.
\<close>

definition runAll :: "nat \<Rightarrow> nat option \<Rightarrow> world \<Rightarrow> nat \<times> world" where
  "runAll m signal w =
     (let (cps, w1) = spawn_all signal (processes (managers w ! m)) w;
          f = \<lparr>frame_signal = signal, entries = cps, errors = [], outcome = Pending\<rparr>
      in (length (frames w1), settle_frames (w1\<lparr>frames := frames w1 @ [f]\<rparr>)))"

section \<open>Histories\<close>

text \<open>
  A history is a sequence of calls made by the program's user and of events delivered by
  the executor and by the owners of the abort signals. An event of a process or of a
  signal that does not exist is not delivered, and no call is made under a signal that
  does not exist.
\<close>

definition exists_signal :: "nat option \<Rightarrow> world \<Rightarrow> bool" where
  "exists_signal signal w = (case signal of None \<Rightarrow> True | Some s \<Rightarrow> s < length (signals w))"

datatype action =
    NewProcess int string
  | Memoize nat
  | Run nat "nat option"
  | NewManager "nat list"
  | AddProcess nat nat
  | RemoveProcess nat int
  | RunAll nat "nat option"
  | NewSignal
  | Abort nat
  | Exit nat "int option" "string option"
  | Close nat "int option" "string option"
  | Fail nat error

fun step :: "action \<Rightarrow> world \<Rightarrow> world" where
  "step (NewProcess i cmd) w = snd (new_process i cmd w)"
| "step (Memoize t) w = snd (memoize t w)"
| "step (Run t signal) w = (if exists_signal signal w then snd (run t signal w) else w)"
| "step (NewManager ps) w = snd (new_manager ps w)"
| "step (AddProcess m t) w = snd (addProcess m t w)"
| "step (RemoveProcess m i) w = snd (removeProcess m i w)"
| "step (RunAll m signal) w = (if exists_signal signal w then snd (runAll m signal w) else w)"
| "step NewSignal w = snd (new_signal w)"
| "step (Abort s) w = (if s < length (signals w) then abort s w else w)"
| "step (Exit c code sg) w = (if c < length (children w) then emit_exit c code sg w else w)"
| "step (Close c code sg) w = (if c < length (children w) then emit_close c code sg w else w)"
| "step (Fail c err) w = (if c < length (children w) then emit_error c err w else w)"

definition exec :: "action list \<Rightarrow> world \<Rightarrow> world" where
  "exec as w = fold step as w"

section \<open>Sample histories\<close>

text \<open>A task, and a signal that has been triggered before any run.\<close>

definition aborted_world :: world where
  "aborted_world = exec [NewProcess 1 ''sleep 5'', NewSignal, Abort 0] empty_world"

text \<open>A manager of four tasks, two of them with the id 1, and a manager of one task.\<close>

definition group_world :: world where
  "group_world =
     exec [NewProcess 1 ''a'', NewProcess 2 ''b'', NewProcess 1 ''c'', NewProcess 3 ''d'',
           NewManager [0, 1, 2, 3], NewManager [0]] empty_world"





text \<open>
  A group of two run under a signal: the first process has exited and closed with
  code 0, the second is running, the signal is not triggered yet.
\<close>

definition cancel_history :: "action list" where
  "cancel_history =
     [NewProcess 1 ''exit 0'', NewProcess 2 ''sleep 5'', NewManager [0, 1], NewSignal,
      RunAll 0 (Some 0), Exit 0 (Some 0) None, Close 0 (Some 0) None]"

section \<open>What holds of every history\<close>

subsection \<open>The frames of runAll\<close>

text \<open>
  The causes a frame should hold: the errors of the rejected promises among its
  entries, one for each, in the order of the entries.
\<close>

definition causes_of :: "promise list \<Rightarrow> (nat \<times> nat) list \<Rightarrow> error list" where
  "causes_of ps es = concat (map (\<lambda>(c, p). case ps ! p of Rejected e \<Rightarrow> [e] | _ \<Rightarrow> []) es)"



text \<open>
  While the loop of \<open>runAll\<close> runs, its frame is open: the entries made so far, no
  error, no outcome.
\<close>

definition open_frame :: "nat option \<Rightarrow> (nat \<times> nat) list \<Rightarrow> run_all_frame" where
  "open_frame \<sigma> acc = \<lparr>frame_signal = \<sigma>, entries = acc, errors = [], outcome = Pending\<rparr>"

definition with_frame :: "world \<Rightarrow> run_all_frame \<Rightarrow> world" where
  "with_frame w f = w\<lparr>frames := frames w @ [f]\<rparr>"

subsection \<open>Who may settle a promise\<close>

text \<open>
  The entries of all the frames, each with the signal of its frame. The process of an
  entry is terminal for the entry when it has closed, when it has emitted an error, or
  when the signal of the frame has been triggered.
\<close>

definition all_entries :: "world \<Rightarrow> (nat option \<times> nat \<times> nat) set" where
  "all_entries w = (\<Union>f \<in> set (frames w). {frame_signal f} \<times> set (entries f))"

definition terminal_at :: "world \<Rightarrow> nat option \<Rightarrow> nat \<Rightarrow> bool" where
  "terminal_at w \<sigma> c =
     (closed (children w ! c) \<or> errored (children w ! c)
      \<or> (\<exists>s. \<sigma> = Some s \<and> s < length (signals w) \<and> aborted (signals w ! s)))"

text \<open>
  The listeners keep a discipline. With \<open>E\<close> the entries and \<open>N\<close> the number of
  promises: a close or error listener on the process \<open>c\<close> holds a promise that is an
  entry of no other process; an exit listener of \<open>run\<close> holds a promise that is no
  entry; an abort listener of \<open>runAll\<close> on the signal \<open>s\<close> holds a promise that is an
  entry under \<open>s\<close> only.
\<close>

fun close_ok :: "(nat option \<times> nat \<times> nat) set \<Rightarrow> nat \<Rightarrow> nat \<Rightarrow> close_listener \<Rightarrow> bool" where
  "close_ok E N c (OnClose i p) = (p < N \<and> (\<forall>\<sigma> c'. (\<sigma>, c', p) \<in> E \<longrightarrow> c' = c))"

fun error_ok :: "(nat option \<times> nat \<times> nat) set \<Rightarrow> nat \<Rightarrow> nat \<Rightarrow> error_listener \<Rightarrow> bool" where
  "error_ok E N c (RejectOnError p) = (p < N \<and> (\<forall>\<sigma> c'. (\<sigma>, c', p) \<in> E \<longrightarrow> c' = c))"

fun exit_ok :: "(nat option \<times> nat \<times> nat) set \<Rightarrow> nat \<Rightarrow> exit_listener \<Rightarrow> bool" where
  "exit_ok E N (OnExit t p) = (p < N \<and> (\<forall>\<sigma> c'. (\<sigma>, c', p) \<notin> E))"
| "exit_ok E N (RemoveOnAbort s c) = True"

fun abort_ok :: "(nat option \<times> nat \<times> nat) set \<Rightarrow> nat \<Rightarrow> nat \<Rightarrow> abort_listener \<Rightarrow> bool" where
  "abort_ok E N s (OnAbort c) = True"
| "abort_ok E N s (GroupAbort c p) = (p < N \<and> (\<forall>\<sigma> c'. (\<sigma>, c', p) \<in> E \<longrightarrow> \<sigma> = Some s))"

definition child_ok :: "(nat option \<times> nat \<times> nat) set \<Rightarrow> nat \<Rightarrow> nat \<Rightarrow> child_process \<Rightarrow> bool" where
  "child_ok E N c ch =
     ((\<forall>l \<in> set (close_listeners ch). close_ok E N c l)
      \<and> (\<forall>l \<in> set (error_listeners ch). error_ok E N c l)
      \<and> (\<forall>l \<in> set (exit_listeners ch). exit_ok E N l))"

definition signal_ok :: "(nat option \<times> nat \<times> nat) set \<Rightarrow> nat \<Rightarrow> nat \<Rightarrow> abort_signal \<Rightarrow> bool" where
  "signal_ok E N s sg = (\<forall>l \<in> set (abort_listeners sg). abort_ok E N s l)"

definition discipline :: "world \<Rightarrow> bool" where
  "discipline w =
     ((\<forall>c < length (children w).
         child_ok (all_entries w) (length (promises w)) c (children w ! c))
      \<and> (\<forall>s < length (signals w).
         signal_ok (all_entries w) (length (promises w)) s (signals w ! s)))"

text \<open>
  The entries are in order when their processes and promises exist and every settled
  promise has a terminal process.
\<close>

definition entries_ok :: "world \<Rightarrow> bool" where
  "entries_ok w =
     (\<forall>(\<sigma>, c, p) \<in> all_entries w.
        c < length (children w) \<and> p < length (promises w)
        \<and> (promises w ! p \<noteq> Pending \<longrightarrow> terminal_at w \<sigma> c))"

definition wf_world :: "world \<Rightarrow> bool" where
  "wf_world w = (entries_ok w \<and> discipline w)"

text \<open>A later state of a child or of a signal: flags only rise, listeners only go.\<close>

definition child_later :: "child_process \<Rightarrow> child_process \<Rightarrow> bool" where
  "child_later ch ch' =
     ((closed ch \<longrightarrow> closed ch') \<and> (errored ch \<longrightarrow> errored ch')
      \<and> set (close_listeners ch') \<subseteq> set (close_listeners ch)
      \<and> set (error_listeners ch') \<subseteq> set (error_listeners ch)
      \<and> set (exit_listeners ch') \<subseteq> set (exit_listeners ch))"

definition signal_later :: "abort_signal \<Rightarrow> abort_signal \<Rightarrow> bool" where
  "signal_later sg sg' =
     ((aborted sg \<longrightarrow> aborted sg') \<and> set (abort_listeners sg') \<subseteq> set (abort_listeners sg))"

text \<open>
  A promise may be settled when every entry it belongs to is terminal: then the
  settlement keeps the entries in order.
\<close>

definition justified :: "world \<Rightarrow> nat \<Rightarrow> bool" where
  "justified w p = (\<forall>\<sigma> c. (\<sigma>, c, p) \<in> all_entries w \<longrightarrow> terminal_at w \<sigma> c)"

text \<open>
  Every entry made under a signal has the abort listener of \<open>runAll\<close> on that signal;
  and the abort listeners of \<open>runAll\<close> on the signals of \<open>w\<close> are still there in \<open>w'\<close>.
\<close>

definition registered :: "world \<Rightarrow> bool" where
  "registered w =
     (\<forall>(\<sigma>, c, p) \<in> all_entries w. \<forall>s. \<sigma> = Some s \<longrightarrow>
        s < length (signals w) \<and> GroupAbort c p \<in> set (abort_listeners (signals w ! s)))"

definition keeps_group :: "world \<Rightarrow> world \<Rightarrow> bool" where
  "keeps_group w w' =
     (length (signals w) \<le> length (signals w')
      \<and> (\<forall>s < length (signals w). \<forall>c p.
            GroupAbort c p \<in> set (abort_listeners (signals w ! s))
            \<longrightarrow> GroupAbort c p \<in> set (abort_listeners (signals w' ! s))))"

text \<open>A settled promise of \<open>w\<close> is the same in \<open>w'\<close>.\<close>

definition keeps :: "nat \<Rightarrow> world \<Rightarrow> world \<Rightarrow> bool" where
  "keeps p w w' =
     (p < length (promises w) \<and> promises w ! p \<noteq> Pending
      \<longrightarrow> p < length (promises w') \<and> promises w' ! p = promises w ! p)"

subsection \<open>Shapes\<close>

text \<open>A \<open>run\<close> is refused when its signal is aborted or its task is running.\<close>

definition refused :: "nat \<Rightarrow> nat option \<Rightarrow> world \<Rightarrow> bool" where
  "refused t \<sigma> w =
     ((case \<sigma> of None \<Rightarrow> False | Some s \<Rightarrow> aborted (signals w ! s)) \<or> isRunning (tasks w ! t))"

text \<open>The process \<open>runAll\<close> spawns for the task \<open>t\<close> with the promise \<open>p\<close>.\<close>

definition group_child :: "predicted_process list \<Rightarrow> nat \<Rightarrow> nat \<Rightarrow> child_process" where
  "group_child ts t p =
     \<lparr>spawned_command = command (ts ! t), exit_listeners = [],
      close_listeners = [OnClose (proc_id (ts ! t)) p],
      error_listeners = [RejectOnError p],
      kill_requests = [], exited = False, closed = False, errored = False\<rparr>"

section \<open>What each operation changes\<close>

lemma update_task_fields [simp]:
  "tasks (update_task t f w) = (tasks w)[t := f (tasks w ! t)]"
  "managers (update_task t f w) = managers w"
  "children (update_task t f w) = children w"
  "signals (update_task t f w) = signals w"
  "promises (update_task t f w) = promises w"
  "frames (update_task t f w) = frames w"
  by (simp_all add: update_task_def)

lemma update_child_fields [simp]:
  "tasks (update_child c f w) = tasks w"
  "managers (update_child c f w) = managers w"
  "children (update_child c f w) = (children w)[c := f (children w ! c)]"
  "signals (update_child c f w) = signals w"
  "promises (update_child c f w) = promises w"
  "frames (update_child c f w) = frames w"
  by (simp_all add: update_child_def)

lemma update_signal_fields [simp]:
  "tasks (update_signal s f w) = tasks w"
  "managers (update_signal s f w) = managers w"
  "children (update_signal s f w) = children w"
  "signals (update_signal s f w) = (signals w)[s := f (signals w ! s)]"
  "promises (update_signal s f w) = promises w"
  "frames (update_signal s f w) = frames w"
  by (simp_all add: update_signal_def)

lemma resolve_fields [simp]:
  "tasks (resolve p w) = tasks w"
  "managers (resolve p w) = managers w"
  "children (resolve p w) = children w"
  "signals (resolve p w) = signals w"
  "frames (resolve p w) = frames w"
  "length (promises (resolve p w)) = length (promises w)"
  by (simp_all add: resolve_def)

lemma reject_fields [simp]:
  "tasks (reject p e w) = tasks w"
  "managers (reject p e w) = managers w"
  "children (reject p e w) = children w"
  "signals (reject p e w) = signals w"
  "length (promises (reject p e w)) = length (promises w)"
  "length (frames (reject p e w)) = length (frames w)"
  by (simp_all add: reject_def)

lemma kill_fields [simp]:
  "tasks (kill c sg w) = tasks w"
  "managers (kill c sg w) = managers w"
  "signals (kill c sg w) = signals w"
  "promises (kill c sg w) = promises w"
  "frames (kill c sg w) = frames w"
  "length (children (kill c sg w)) = length (children w)"
  by (simp_all add: kill_def)

lemma removeAllListeners_fields [simp]:
  "tasks (removeAllListeners c w) = tasks w"
  "managers (removeAllListeners c w) = managers w"
  "signals (removeAllListeners c w) = signals w"
  "promises (removeAllListeners c w) = promises w"
  "frames (removeAllListeners c w) = frames w"
  "length (children (removeAllListeners c w)) = length (children w)"
  by (simp_all add: removeAllListeners_def)

lemma settle_frames_fields [simp]:
  "tasks (settle_frames w) = tasks w"
  "managers (settle_frames w) = managers w"
  "children (settle_frames w) = children w"
  "signals (settle_frames w) = signals w"
  "promises (settle_frames w) = promises w"
  "length (frames (settle_frames w)) = length (frames w)"
  by (simp_all add: settle_frames_def)

text \<open>A promise changes only from pending, and only through its own resolve or reject.\<close>

lemma resolve_promise:
  "promises (resolve p w) ! q =
     (if q = p \<and> p < length (promises w) \<and> promises w ! p = Pending then Resolved
      else promises w ! q)"
  by (cases "p < length (promises w)") (simp_all add: resolve_def nth_list_update list_update_beyond)

lemma reject_promise:
  "promises (reject p e w) ! q =
     (if q = p \<and> p < length (promises w) \<and> promises w ! p = Pending then Rejected e
      else promises w ! q)"
  by (cases "p < length (promises w)") (simp_all add: reject_def nth_list_update list_update_beyond)

lemma call_abort_fields [simp]:
  "tasks (call_abort l w) = tasks w"
  "managers (call_abort l w) = managers w"
  "signals (call_abort l w) = signals w"
  "length (promises (call_abort l w)) = length (promises w)"
  "length (children (call_abort l w)) = length (children w)"
  "length (frames (call_abort l w)) = length (frames w)"
  by (cases l; simp)+

lemma fold_call_abort_fields [simp]:
  "tasks (fold call_abort ls w) = tasks w"
  "managers (fold call_abort ls w) = managers w"
  "signals (fold call_abort ls w) = signals w"
  "length (promises (fold call_abort ls w)) = length (promises w)"
  "length (children (fold call_abort ls w)) = length (children w)"
  "length (frames (fold call_abort ls w)) = length (frames w)"
  by (induction ls arbitrary: w; simp)+

text \<open>What \<open>kill\<close> does to a child: only its kill requests grow.\<close>

lemma kill_child:
  "children (kill c sg w) ! k =
     (if k = c \<and> c < length (children w) \<and> \<not> exited (children w ! c)
      then (children w ! c)\<lparr>kill_requests := kill_requests (children w ! c) @ [sg]\<rparr>
      else children w ! k)"
  by (cases "c < length (children w)") (simp_all add: kill_def nth_list_update list_update_beyond)


lemma kill_child_grows:
  "\<exists>ks. children (kill c sg w) ! k
          = (children w ! k)\<lparr>kill_requests := kill_requests (children w ! k) @ ks\<rparr>"
proof (cases "k = c \<and> c < length (children w) \<and> \<not> exited (children w ! c)")
  case True
  then show ?thesis by (intro exI [of _ "[sg]"]) (simp add: kill_child)
next
  case False
  then have "children (kill c sg w) ! k = children w ! k"
    by (auto simp add: kill_child)
  then show ?thesis by (intro exI [of _ "[]"]) simp
qed

lemma call_abort_child:
  "\<exists>ks. children (call_abort l w) ! k
          = (children w ! k)\<lparr>kill_requests := kill_requests (children w ! k) @ ks\<rparr>"
  by (cases l) (simp_all add: kill_child_grows)

lemma fold_call_abort_child:
  "\<exists>ks. children (fold call_abort ls w) ! k
          = (children w ! k)\<lparr>kill_requests := kill_requests (children w ! k) @ ks\<rparr>"
proof (induction ls arbitrary: w)
  case Nil
  show ?case by (intro exI [of _ "[]"]) simp
next
  case (Cons l ls)
  obtain ks1 where 1: "children (call_abort l w) ! k
      = (children w ! k)\<lparr>kill_requests := kill_requests (children w ! k) @ ks1\<rparr>"
    using call_abort_child by blast
  obtain ks2 where 2: "children (fold call_abort ls (call_abort l w)) ! k
      = (children (call_abort l w) ! k)
          \<lparr>kill_requests := kill_requests (children (call_abort l w) ! k) @ ks2\<rparr>"
    using Cons.IH by blast
  show ?case
    by (intro exI [of _ "ks1 @ ks2"]) (simp add: 1 2)
qed




lemma causes_of_append [simp]: "causes_of ps (es @ es') = causes_of ps es @ causes_of ps es'"
  by (simp add: causes_of_def)








lemma new_promise_fields [simp]:
  "fst (new_promise st w) = length (promises w)"
  "tasks (snd (new_promise st w)) = tasks w"
  "managers (snd (new_promise st w)) = managers w"
  "children (snd (new_promise st w)) = children w"
  "signals (snd (new_promise st w)) = signals w"
  "promises (snd (new_promise st w)) = promises w @ [st]"
  "frames (snd (new_promise st w)) = frames w"
  by (simp_all add: new_promise_def)

lemma spawn_fields [simp]:
  "fst (spawn cmd w) = length (children w)"
  "tasks (snd (spawn cmd w)) = tasks w"
  "managers (snd (spawn cmd w)) = managers w"
  "signals (snd (spawn cmd w)) = signals w"
  "promises (snd (spawn cmd w)) = promises w"
  "frames (snd (spawn cmd w)) = frames w"
  "length (children (snd (spawn cmd w))) = Suc (length (children w))"
  by (simp_all add: spawn_def)

lemma new_process_fields [simp]:
  "managers (snd (new_process i cmd w)) = managers w"
  "children (snd (new_process i cmd w)) = children w"
  "signals (snd (new_process i cmd w)) = signals w"
  "promises (snd (new_process i cmd w)) = promises w"
  "frames (snd (new_process i cmd w)) = frames w"
  by (simp_all add: new_process_def)

lemma memoize_fields [simp]:
  "managers (snd (memoize t w)) = managers w"
  "children (snd (memoize t w)) = children w"
  "signals (snd (memoize t w)) = signals w"
  "promises (snd (memoize t w)) = promises w"
  "frames (snd (memoize t w)) = frames w"
  by (simp_all add: memoize_def split_def Let_def)

lemma new_manager_fields [simp]:
  "tasks (snd (new_manager ps w)) = tasks w"
  "children (snd (new_manager ps w)) = children w"
  "signals (snd (new_manager ps w)) = signals w"
  "promises (snd (new_manager ps w)) = promises w"
  "frames (snd (new_manager ps w)) = frames w"
  by (simp_all add: new_manager_def)

lemma addProcess_fields [simp]:
  "tasks (snd (addProcess m t w)) = tasks w"
  "children (snd (addProcess m t w)) = children w"
  "signals (snd (addProcess m t w)) = signals w"
  "promises (snd (addProcess m t w)) = promises w"
  "frames (snd (addProcess m t w)) = frames w"
  by (simp_all add: addProcess_def)

lemma removeProcess_fields [simp]:
  "tasks (snd (removeProcess m i w)) = tasks w"
  "children (snd (removeProcess m i w)) = children w"
  "signals (snd (removeProcess m i w)) = signals w"
  "promises (snd (removeProcess m i w)) = promises w"
  "frames (snd (removeProcess m i w)) = frames w"
  by (simp_all add: removeProcess_def)

lemma new_signal_fields [simp]:
  "tasks (snd (new_signal w)) = tasks w"
  "managers (snd (new_signal w)) = managers w"
  "children (snd (new_signal w)) = children w"
  "signals (snd (new_signal w)) = signals w @ [\<lparr>aborted = False, abort_listeners = []\<rparr>]"
  "promises (snd (new_signal w)) = promises w"
  "frames (snd (new_signal w)) = frames w"
  by (simp_all add: new_signal_def)

text \<open>The world after any \<open>run\<close>: one more promise, and the frames as they were.\<close>

lemma run_promises:
  "\<exists>st. promises (snd (run t \<sigma> w)) = promises w @ [st]"
  by (cases \<sigma>) (simp_all add: run_def split_def Let_def)

lemma run_frames [simp]: "frames (snd (run t \<sigma> w)) = frames w"
  by (cases \<sigma>) (simp_all add: run_def split_def Let_def)

lemma run_managers [simp]: "managers (snd (run t \<sigma> w)) = managers w"
  by (cases \<sigma>) (simp_all add: run_def split_def Let_def)

lemma spawn_one_fields [simp]:
  "fst (spawn_one \<sigma> t w) = (length (children w), length (promises w))"
  "tasks (snd (spawn_one \<sigma> t w)) = tasks w"
  "managers (snd (spawn_one \<sigma> t w)) = managers w"
  "promises (snd (spawn_one \<sigma> t w)) = promises w @ [Pending]"
  "frames (snd (spawn_one \<sigma> t w)) = frames w"
  "length (children (snd (spawn_one \<sigma> t w))) = Suc (length (children w))"
  "length (signals (snd (spawn_one \<sigma> t w))) = length (signals w)"
  by (cases \<sigma>; simp add: spawn_one_def split_def Let_def)+

section \<open>The frames of runAll\<close>
























section \<open>The entries and what may settle them\<close>

lemma all_entries_same: "frames w' = frames w \<Longrightarrow> all_entries w' = all_entries w"
  by (simp add: all_entries_def)

lemma push_error_statics [simp]:
  "frame_signal (push_error p e f) = frame_signal f"
  "entries (push_error p e f) = entries f"
  by (simp_all add: push_error_def)

lemma settle_frame_statics [simp]:
  "frame_signal (settle_frame ps f) = frame_signal f"
  "entries (settle_frame ps f) = entries f"
  by (simp_all add: settle_frame_def)

lemma all_entries_reject [simp]: "all_entries (reject p e w) = all_entries w"
  by (simp add: all_entries_def reject_def)

lemma all_entries_settle [simp]: "all_entries (settle_frames w) = all_entries w"
  by (simp add: all_entries_def settle_frames_def)

lemma all_entries_simps [simp]:
  "all_entries (resolve p w) = all_entries w"
  "all_entries (update_task t f w) = all_entries w"
  "all_entries (update_child c g w) = all_entries w"
  "all_entries (update_signal s h w) = all_entries w"
  "all_entries (kill c sg w) = all_entries w"
  "all_entries (removeAllListeners c w) = all_entries w"
  by (simp_all add: all_entries_def)

lemma child_ok_later: "child_ok E N c ch \<Longrightarrow> child_later ch ch' \<Longrightarrow> child_ok E N c ch'"
  by (auto simp add: child_ok_def child_later_def)

lemma signal_ok_later: "signal_ok E N s sg \<Longrightarrow> signal_later sg sg' \<Longrightarrow> signal_ok E N s sg'"
  by (auto simp add: signal_ok_def signal_later_def)

lemma wf_update_task: "wf_world w \<Longrightarrow> wf_world (update_task t f w)"
  by (simp add: wf_world_def entries_ok_def discipline_def terminal_at_def)

lemma wf_update_child:
  assumes "wf_world w" and "\<And>ch. child_later ch (g ch)"
  shows "wf_world (update_child c g w)"
proof -
  have l: "child_later (children w ! k) (children (update_child c g w) ! k)" for k
  proof (cases "c < length (children w)")
    case True
    then show ?thesis
      using assms(2) by (cases "k = c") (auto simp add: nth_list_update child_later_def)
  next
    case False
    then show ?thesis by (simp add: list_update_beyond child_later_def)
  qed
  have "terminal_at (update_child c g w) \<sigma> k" if "terminal_at w \<sigma> k" for \<sigma> k
    using that l [of k] by (auto simp add: terminal_at_def child_later_def)
  then have "entries_ok (update_child c g w)"
    using assms(1) by (fastforce simp add: wf_world_def entries_ok_def)
  moreover have "child_ok (all_entries w) (length (promises w)) k
      (children (update_child c g w) ! k)" if "k < length (children w)" for k
    using assms(1) that l [of k] by (auto simp add: wf_world_def discipline_def intro: child_ok_later)
  then have "discipline (update_child c g w)"
    using assms(1) by (simp add: wf_world_def discipline_def)
  ultimately show ?thesis by (simp add: wf_world_def)
qed

lemma wf_update_signal:
  assumes "wf_world w" and "\<And>sg. signal_later sg (h sg)"
  shows "wf_world (update_signal s h w)"
proof -
  have l: "signal_later (signals w ! k) (signals (update_signal s h w) ! k)" for k
  proof (cases "s < length (signals w)")
    case True
    then show ?thesis
      using assms(2) by (cases "k = s") (auto simp add: nth_list_update signal_later_def)
  next
    case False
    then show ?thesis by (simp add: list_update_beyond signal_later_def)
  qed
  have "terminal_at (update_signal s h w) \<sigma> k" if "terminal_at w \<sigma> k" for \<sigma> k
    using that l by (auto simp add: terminal_at_def signal_later_def)
  then have "entries_ok (update_signal s h w)"
    using assms(1) by (fastforce simp add: wf_world_def entries_ok_def)
  moreover have "signal_ok (all_entries w) (length (promises w)) k
      (signals (update_signal s h w) ! k)" if "k < length (signals w)" for k
    using assms(1) that l [of k] by (auto simp add: wf_world_def discipline_def intro: signal_ok_later)
  then have "discipline (update_signal s h w)"
    using assms(1) by (simp add: wf_world_def discipline_def)
  ultimately show ?thesis by (simp add: wf_world_def)
qed

lemma wf_kill: "wf_world w \<Longrightarrow> wf_world (kill c sg w)"
  unfolding kill_def by (auto intro!: wf_update_child simp add: child_later_def)

lemma wf_removeAllListeners: "wf_world w \<Longrightarrow> wf_world (removeAllListeners c w)"
  unfolding removeAllListeners_def by (auto intro!: wf_update_child simp add: child_later_def)

lemma wf_settle_frames: "wf_world w \<Longrightarrow> wf_world (settle_frames w)"
  by (simp add: wf_world_def entries_ok_def discipline_def terminal_at_def)

lemma terminal_at_resolve [simp]: "terminal_at (resolve p w) = terminal_at w"
  by (simp add: terminal_at_def fun_eq_iff)

lemma terminal_at_reject [simp]: "terminal_at (reject p e w) = terminal_at w"
  by (simp add: terminal_at_def fun_eq_iff)

lemma wf_resolve:
  assumes "wf_world w" and "justified w p"
  shows "wf_world (resolve p w)"
proof -
  have "entries_ok (resolve p w)"
    using assms unfolding wf_world_def entries_ok_def justified_def
    by (auto simp add: resolve_promise)
  moreover have "discipline (resolve p w)"
    using assms(1) by (simp add: wf_world_def discipline_def)
  ultimately show ?thesis by (simp add: wf_world_def)
qed

lemma wf_reject:
  assumes "wf_world w" and "justified w p"
  shows "wf_world (reject p e w)"
proof -
  have "entries_ok (reject p e w)"
    using assms unfolding wf_world_def entries_ok_def justified_def
    by (auto simp add: reject_promise)
  moreover have "discipline (reject p e w)"
    using assms(1) by (simp add: wf_world_def discipline_def)
  ultimately show ?thesis by (simp add: wf_world_def)
qed

lemma call_close_fields [simp]:
  "children (call_close code sg l w) = children w"
  "signals (call_close code sg l w) = signals w"
  "length (promises (call_close code sg l w)) = length (promises w)"
  "all_entries (call_close code sg l w) = all_entries w"
  by (cases l; simp)+

lemma call_error_fields [simp]:
  "children (call_error err l w) = children w"
  "signals (call_error err l w) = signals w"
  "length (promises (call_error err l w)) = length (promises w)"
  "all_entries (call_error err l w) = all_entries w"
  by (cases l; simp)+

lemma call_exit_fields [simp]:
  "length (promises (call_exit code sg l w)) = length (promises w)"
  "all_entries (call_exit code sg l w) = all_entries w"
  by (cases l; simp add: Let_def split: option.split)+

lemma call_abort_entries [simp]: "all_entries (call_abort l w) = all_entries w"
  by (cases l) simp_all

lemma wf_call_close:
  assumes "wf_world w" and "close_ok (all_entries w) (length (promises w)) c l"
    and "closed (children w ! c)"
  shows "wf_world (call_close code sg l w)"
proof (cases l)
  case (OnClose i p)
  then have "justified w p"
    using assms(2,3) by (auto simp add: justified_def terminal_at_def)
  then show ?thesis using OnClose assms(1) by (simp add: wf_resolve wf_reject)
qed

lemma wf_fold_call_close:
  assumes "wf_world w" and "\<forall>l \<in> set ls. close_ok (all_entries w) (length (promises w)) c l"
    and "closed (children w ! c)"
  shows "wf_world (fold (call_close code sg) ls w)"
  using assms
proof (induction ls arbitrary: w)
  case Nil
  then show ?case by simp
next
  case (Cons l ls)
  have 1: "wf_world (call_close code sg l w)"
    using Cons.prems by (intro wf_call_close [where c = c]) simp_all
  have "wf_world (fold (call_close code sg) ls (call_close code sg l w))"
    using 1 Cons.prems by (intro Cons.IH) simp_all
  then show ?case by simp
qed

lemma wf_emit_close:
  assumes "wf_world w" and "c < length (children w)"
  shows "wf_world (emit_close c code sg w)"
proof -
  define w1 where "w1 = update_child c (\<lambda>ch. ch\<lparr>closed := True\<rparr>) w"
  have 1: "wf_world w1"
    unfolding w1_def using assms(1) by (rule wf_update_child) (simp add: child_later_def)
  have "child_ok (all_entries w) (length (promises w)) c (children w ! c)"
    using assms by (simp add: wf_world_def discipline_def)
  then have 2: "\<forall>l \<in> set (close_listeners (children w ! c)).
      close_ok (all_entries w1) (length (promises w1)) c l"
    by (simp add: child_ok_def w1_def)
  have 3: "closed (children w1 ! c)" using assms(2) by (simp add: w1_def)
  show ?thesis
    unfolding emit_close_def Let_def w1_def [symmetric]
    by (intro wf_settle_frames wf_fold_call_close [OF 1 2 3])
qed

lemma wf_call_error:
  assumes "wf_world w" and "error_ok (all_entries w) (length (promises w)) c l"
    and "errored (children w ! c)"
  shows "wf_world (call_error err l w)"
proof (cases l)
  case (RejectOnError p)
  then have "justified w p"
    using assms(2,3) by (auto simp add: justified_def terminal_at_def)
  then show ?thesis using RejectOnError assms(1) by (simp add: wf_reject)
qed

lemma wf_fold_call_error:
  assumes "wf_world w" and "\<forall>l \<in> set ls. error_ok (all_entries w) (length (promises w)) c l"
    and "errored (children w ! c)"
  shows "wf_world (fold (call_error err) ls w)"
  using assms
proof (induction ls arbitrary: w)
  case Nil
  then show ?case by simp
next
  case (Cons l ls)
  have 1: "wf_world (call_error err l w)"
    using Cons.prems by (intro wf_call_error [where c = c]) simp_all
  have "wf_world (fold (call_error err) ls (call_error err l w))"
    using 1 Cons.prems by (intro Cons.IH) simp_all
  then show ?case by simp
qed

lemma wf_emit_error:
  assumes "wf_world w" and "c < length (children w)"
  shows "wf_world (emit_error c err w)"
proof -
  define w1 where "w1 = update_child c (\<lambda>ch. ch\<lparr>errored := True\<rparr>) w"
  have 1: "wf_world w1"
    unfolding w1_def using assms(1) by (rule wf_update_child) (simp add: child_later_def)
  have "child_ok (all_entries w) (length (promises w)) c (children w ! c)"
    using assms by (simp add: wf_world_def discipline_def)
  then have 2: "\<forall>l \<in> set (error_listeners (children w ! c)).
      error_ok (all_entries w1) (length (promises w1)) c l"
    by (simp add: child_ok_def w1_def)
  have 3: "errored (children w1 ! c)" using assms(2) by (simp add: w1_def)
  show ?thesis
    unfolding emit_error_def Let_def w1_def [symmetric]
    by (intro wf_settle_frames wf_fold_call_error [OF 1 2 3])
qed

lemma wf_call_exit:
  assumes "wf_world w" and "exit_ok (all_entries w) (length (promises w)) l"
  shows "wf_world (call_exit code sg l w)"
proof (cases l)
  case (OnExit t p)
  define w3 where "w3 = update_task t (\<lambda>x. x\<lparr>isRunning := False\<rparr>)
      (update_task t (\<lambda>x. x\<lparr>childProcess := None\<rparr>)
        (case childProcess (tasks w ! t) of None \<Rightarrow> w | Some c \<Rightarrow> removeAllListeners c w))"
  have "wf_world w3"
    unfolding w3_def using assms(1)
    by (intro wf_update_task) (simp add: wf_removeAllListeners split: option.split)
  moreover have "all_entries w3 = all_entries w"
    by (simp add: w3_def split: option.split)
  then have "justified w3 p"
    using assms(2) OnExit by (simp add: justified_def)
  ultimately show ?thesis
    using OnExit by (simp add: Let_def w3_def [symmetric] wf_resolve wf_reject)
next
  case (RemoveOnAbort s c)
  have "wf_world (update_signal s
      (\<lambda>x. x\<lparr>abort_listeners := removeAll (OnAbort c) (abort_listeners x)\<rparr>) w)"
    using assms(1) by (rule wf_update_signal) (auto simp add: signal_later_def)
  then show ?thesis using RemoveOnAbort by simp
qed

lemma wf_fold_call_exit:
  assumes "wf_world w" and "\<forall>l \<in> set ls. exit_ok (all_entries w) (length (promises w)) l"
  shows "wf_world (fold (call_exit code sg) ls w)"
  using assms
proof (induction ls arbitrary: w)
  case Nil
  then show ?case by simp
next
  case (Cons l ls)
  have 1: "wf_world (call_exit code sg l w)"
    using Cons.prems by (intro wf_call_exit) simp_all
  have "wf_world (fold (call_exit code sg) ls (call_exit code sg l w))"
    using 1 Cons.prems by (intro Cons.IH) simp_all
  then show ?case by simp
qed

lemma wf_emit_exit:
  assumes "wf_world w" and "c < length (children w)"
  shows "wf_world (emit_exit c code sg w)"
proof -
  define w1 where "w1 = update_child c (\<lambda>ch. ch\<lparr>exited := True, exit_listeners := []\<rparr>) w"
  have 1: "wf_world w1"
    unfolding w1_def using assms(1) by (rule wf_update_child) (simp add: child_later_def)
  have "child_ok (all_entries w) (length (promises w)) c (children w ! c)"
    using assms by (simp add: wf_world_def discipline_def)
  then have 2: "\<forall>l \<in> set (exit_listeners (children w ! c)).
      exit_ok (all_entries w1) (length (promises w1)) l"
    by (simp add: child_ok_def w1_def)
  show ?thesis
    unfolding emit_exit_def Let_def w1_def [symmetric]
    by (intro wf_settle_frames wf_fold_call_exit [OF 1 2])
qed

lemma wf_call_abort:
  assumes "wf_world w" and "abort_ok (all_entries w) (length (promises w)) s l"
    and "s < length (signals w)" and "aborted (signals w ! s)"
  shows "wf_world (call_abort l w)"
proof (cases l)
  case (OnAbort c)
  then show ?thesis using assms(1) by (simp add: wf_kill)
next
  case (GroupAbort c p)
  have "justified (kill c ''SIGTERM'' w) p"
    using assms(2,3,4) GroupAbort by (auto simp add: justified_def terminal_at_def)
  then show ?thesis using GroupAbort assms(1) by (simp add: wf_reject wf_kill)
qed

lemma wf_fold_call_abort:
  assumes "wf_world w" and "\<forall>l \<in> set ls. abort_ok (all_entries w) (length (promises w)) s l"
    and "s < length (signals w)" and "aborted (signals w ! s)"
  shows "wf_world (fold call_abort ls w)"
  using assms
proof (induction ls arbitrary: w)
  case Nil
  then show ?case by simp
next
  case (Cons l ls)
  have 1: "wf_world (call_abort l w)"
    using Cons.prems by (intro wf_call_abort [where s = s]) simp_all
  have "wf_world (fold (call_abort) ls (call_abort l w))"
    using 1 Cons.prems by (intro Cons.IH) simp_all
  then show ?case by simp
qed

lemma wf_abort:
  assumes "wf_world w" and "s < length (signals w)"
  shows "wf_world (abort s w)"
proof (cases "aborted (signals w ! s)")
  case True
  then show ?thesis using assms(1) by (simp add: abort_def)
next
  case False
  define w1 where "w1 = update_signal s (\<lambda>x. x\<lparr>aborted := True\<rparr>) w"
  have 1: "wf_world w1"
    unfolding w1_def using assms(1) by (rule wf_update_signal) (simp add: signal_later_def)
  have "signal_ok (all_entries w) (length (promises w)) s (signals w ! s)"
    using assms by (simp add: wf_world_def discipline_def)
  then have 2: "\<forall>l \<in> set (abort_listeners (signals w ! s)).
      abort_ok (all_entries w1) (length (promises w1)) s l"
    by (simp add: signal_ok_def w1_def)
  have 3: "s < length (signals w1)" "aborted (signals w1 ! s)"
    using assms(2) by (simp_all add: w1_def)
  show ?thesis
    using False unfolding abort_def w1_def [symmetric]
    by (simp add: wf_settle_frames wf_fold_call_abort [OF 1 2 3])
qed

text \<open>
  More promises and more entries, the new entries on new promises only: what a listener
  may settle stays in order.
\<close>

lemma close_ok_grow:
  assumes "close_ok E N c l" and "N \<le> N'"
    and "\<And>\<sigma> c' p. (\<sigma>, c', p) \<in> E' \<Longrightarrow> p < N \<Longrightarrow> (\<sigma>, c', p) \<in> E"
  shows "close_ok E' N' c l"
  using assms by (cases l; simp; blast)

lemma error_ok_grow:
  assumes "error_ok E N c l" and "N \<le> N'"
    and "\<And>\<sigma> c' p. (\<sigma>, c', p) \<in> E' \<Longrightarrow> p < N \<Longrightarrow> (\<sigma>, c', p) \<in> E"
  shows "error_ok E' N' c l"
  using assms by (cases l; simp; blast)

lemma exit_ok_grow:
  assumes "exit_ok E N l" and "N \<le> N'"
    and "\<And>\<sigma> c' p. (\<sigma>, c', p) \<in> E' \<Longrightarrow> p < N \<Longrightarrow> (\<sigma>, c', p) \<in> E"
  shows "exit_ok E' N' l"
  using assms by (cases l; simp; blast)

lemma abort_ok_grow:
  assumes "abort_ok E N s l" and "N \<le> N'"
    and "\<And>\<sigma> c' p. (\<sigma>, c', p) \<in> E' \<Longrightarrow> p < N \<Longrightarrow> (\<sigma>, c', p) \<in> E"
  shows "abort_ok E' N' s l"
  using assms by (cases l; simp; blast)

lemma child_ok_grow:
  assumes "child_ok E N c ch" and "N \<le> N'"
    and "\<And>\<sigma> c' p. (\<sigma>, c', p) \<in> E' \<Longrightarrow> p < N \<Longrightarrow> (\<sigma>, c', p) \<in> E"
  shows "child_ok E' N' c ch"
  unfolding child_ok_def
proof (intro conjI ballI)
  fix l assume "l \<in> set (close_listeners ch)"
  then have "close_ok E N c l" using assms(1) by (simp add: child_ok_def)
  then show "close_ok E' N' c l" using assms(2,3) by (rule close_ok_grow)
next
  fix l assume "l \<in> set (error_listeners ch)"
  then have "error_ok E N c l" using assms(1) by (simp add: child_ok_def)
  then show "error_ok E' N' c l" using assms(2,3) by (rule error_ok_grow)
next
  fix l assume "l \<in> set (exit_listeners ch)"
  then have "exit_ok E N l" using assms(1) by (simp add: child_ok_def)
  then show "exit_ok E' N' l" using assms(2,3) by (rule exit_ok_grow)
qed

lemma wf_extend:
  assumes wf: "wf_world w"
    and P: "promises w' = promises w @ sts"
    and C: "children w' = children w @ cs"
    and Sl: "length (signals w') = length (signals w)"
    and Sa: "\<And>s. s < length (signals w) \<Longrightarrow> aborted (signals w' ! s) = aborted (signals w ! s)"
    and Sn: "\<And>s l. s < length (signals w) \<Longrightarrow> l \<in> set (abort_listeners (signals w' ! s))
               \<Longrightarrow> l \<in> set (abort_listeners (signals w ! s))
                   \<or> abort_ok (all_entries w') (length (promises w')) s l"
    and E: "all_entries w' \<subseteq> all_entries w \<union> Enew"
    and En: "\<And>\<sigma> c p. (\<sigma>, c, p) \<in> Enew \<Longrightarrow>
               c < length (children w') \<and> length (promises w) \<le> p \<and> p < length (promises w')
               \<and> promises w' ! p = Pending"
    and Cn: "\<And>k. k < length cs \<Longrightarrow>
               child_ok (all_entries w') (length (promises w')) (length (children w) + k) (cs ! k)"
  shows "wf_world w'"
proof -
  have eo: "entries_ok w" and di: "discipline w" using wf by (simp_all add: wf_world_def)
  have old: "(\<sigma>, c, p) \<in> all_entries w" if "(\<sigma>, c, p) \<in> all_entries w'" "p < length (promises w)"
    for \<sigma> c p
    using that E En by fastforce
  have le: "length (promises w) \<le> length (promises w')" by (simp add: P)
  have "entries_ok w'"
    unfolding entries_ok_def
  proof (intro ballI, clarify)
    fix \<sigma> c p assume "(\<sigma>, c, p) \<in> all_entries w'"
    then consider (old) "(\<sigma>, c, p) \<in> all_entries w" | (new) "(\<sigma>, c, p) \<in> Enew"
      using E by auto
    then show "c < length (children w') \<and> p < length (promises w')
        \<and> (promises w' ! p \<noteq> Pending \<longrightarrow> terminal_at w' \<sigma> c)"
    proof cases
      case old
      then have b: "c < length (children w)" "p < length (promises w)"
        and t: "promises w ! p \<noteq> Pending \<longrightarrow> terminal_at w \<sigma> c"
        using eo by (auto simp add: entries_ok_def)
      have "terminal_at w \<sigma> c \<Longrightarrow> terminal_at w' \<sigma> c"
        using b Sl Sa by (auto simp add: terminal_at_def C nth_append)
      then show ?thesis using b t by (auto simp add: P C nth_append)
    next
      case new
      then show ?thesis using En by blast
    qed
  qed
  moreover have "discipline w'"
    unfolding discipline_def
  proof (intro conjI allI impI)
    fix c assume c: "c < length (children w')"
    show "child_ok (all_entries w') (length (promises w')) c (children w' ! c)"
    proof (cases "c < length (children w)")
      case True
      then have "child_ok (all_entries w) (length (promises w)) c (children w ! c)"
        using di by (simp add: discipline_def)
      then have "child_ok (all_entries w') (length (promises w')) c (children w ! c)"
        using le old by (rule child_ok_grow)
      then show ?thesis using True by (simp add: C nth_append)
    next
      case False
      then have "c - length (children w) < length cs" using c by (simp add: C)
      from Cn [OF this] show ?thesis using False by (simp add: C nth_append)
    qed
  next
    fix s assume s: "s < length (signals w')"
    then have s': "s < length (signals w)" by (simp add: Sl)
    then have so: "signal_ok (all_entries w) (length (promises w)) s (signals w ! s)"
      using di by (simp add: discipline_def)
    show "signal_ok (all_entries w') (length (promises w')) s (signals w' ! s)"
      unfolding signal_ok_def
    proof
      fix l assume "l \<in> set (abort_listeners (signals w' ! s))"
      from Sn [OF s' this] show "abort_ok (all_entries w') (length (promises w')) s l"
      proof
        assume "l \<in> set (abort_listeners (signals w ! s))"
        then have "abort_ok (all_entries w) (length (promises w)) s l"
          using so by (simp add: signal_ok_def)
        then show ?thesis using le old by (rule abort_ok_grow)
      qed
    qed
  qed
  ultimately show ?thesis by (simp add: wf_world_def)
qed

lemma wf_same:
  assumes "wf_world w" and "children w' = children w" and "signals w' = signals w"
    and "promises w' = promises w" and "frames w' = frames w"
  shows "wf_world w'"
  using assms
  by (simp add: wf_world_def entries_ok_def discipline_def terminal_at_def all_entries_def)

lemma wf_empty: "wf_world empty_world"
  by (simp add: wf_world_def entries_ok_def discipline_def all_entries_def empty_world_def)

lemma wf_new_signal: "wf_world w \<Longrightarrow> wf_world (snd (new_signal w))"
proof -
  assume wf: "wf_world w"
  have eo: "entries_ok w" and di: "discipline w" using wf by (simp_all add: wf_world_def)
  have E: "all_entries (snd (new_signal w)) = all_entries w"
    by (simp add: all_entries_def)
  have "terminal_at w \<sigma> c \<Longrightarrow> terminal_at (snd (new_signal w)) \<sigma> c" for \<sigma> c
    by (auto simp add: terminal_at_def nth_append)
  then have "entries_ok (snd (new_signal w))"
    using eo by (fastforce simp add: entries_ok_def E)
  moreover have "discipline (snd (new_signal w))"
    using di by (auto simp add: discipline_def E nth_append signal_ok_def less_Suc_eq)
  ultimately show ?thesis by (simp add: wf_world_def)
qed

lemma nth_list_update_any:
  "xs[i := x] ! j = (if i = j \<and> i < length xs then x else xs ! j)"
  by (cases "i < length xs") (auto simp add: nth_list_update list_update_beyond)

lemma run_refused:
  assumes "refused t \<sigma> w"
  shows "\<exists>e. run t \<sigma> w = new_promise (Rejected e) w"
  using assms by (auto simp add: refused_def run_def)

lemma run_launched:
  assumes "\<not> refused t \<sigma> w"
  shows "fst (run t \<sigma> w) = length (promises w)"
    and "promises (snd (run t \<sigma> w)) = promises w @ [Pending]"
    and "children (snd (run t \<sigma> w)) = children w @
           [\<lparr>spawned_command = command (tasks w ! t),
             exit_listeners = OnExit t (length (promises w))
               # (case \<sigma> of None \<Rightarrow> [] | Some s \<Rightarrow> [RemoveOnAbort s (length (children w))]),
             close_listeners = [], error_listeners = [RejectOnError (length (promises w))],
             kill_requests = [], exited = False, closed = False, errored = False\<rparr>]"
    and "tasks (snd (run t \<sigma> w))
           = (tasks w)[t := (tasks w ! t)\<lparr>isRunning := True,
                                          childProcess := Some (length (children w))\<rparr>]"
    and "signals (snd (run t \<sigma> w))
           = (case \<sigma> of None \<Rightarrow> signals w
              | Some s \<Rightarrow> (signals w)[s := (signals w ! s)
                  \<lparr>abort_listeners := abort_listeners (signals w ! s)
                     @ [OnAbort (length (children w))]\<rparr>])"
proof -
  define w1 where "w1 = update_task t (\<lambda>x. x\<lparr>isRunning := True\<rparr>) w"
  define p where "p = length (promises w)"
  define w2 where "w2 = w1\<lparr>promises := promises w1 @ [Pending]\<rparr>"
  define c where "c = length (children w)"
  define w3 where "w3 = snd (spawn (command (tasks w2 ! t)) w2)"
  define w4 where "w4 = update_task t (\<lambda>x. x\<lparr>childProcess := Some c\<rparr>) w3"
  define w5 where "w5 = update_child c (\<lambda>ch. ch\<lparr>exit_listeners := exit_listeners ch @ [OnExit t p]\<rparr>) w4"
  define w6 where "w6 = (case \<sigma> of None \<Rightarrow> w5 | Some s \<Rightarrow> update_child c
                        (\<lambda>ch. ch\<lparr>exit_listeners := exit_listeners ch @ [RemoveOnAbort s c]\<rparr>)
                        (update_signal s
                          (\<lambda>x. x\<lparr>abort_listeners := abort_listeners x @ [OnAbort c]\<rparr>) w5))"
  define w7 where "w7 = update_child c
                   (\<lambda>ch. ch\<lparr>error_listeners := error_listeners ch @ [RejectOnError p]\<rparr>) w6"
  have r: "run t \<sigma> w = (p, w7)"
    using assms
    by (cases \<sigma>)
       (simp_all add: refused_def run_def new_promise_def Let_def w1_def p_def w2_def c_def
         w3_def w4_def w5_def w6_def w7_def spawn_def)
  show "fst (run t \<sigma> w) = length (promises w)" by (simp add: r p_def)
  show "promises (snd (run t \<sigma> w)) = promises w @ [Pending]"
    using r w6_def
    by (cases \<sigma>) (simp_all add: w7_def w5_def w4_def w3_def w2_def w1_def spawn_def)
  show "signals (snd (run t \<sigma> w))
           = (case \<sigma> of None \<Rightarrow> signals w
              | Some s \<Rightarrow> (signals w)[s := (signals w ! s)
                  \<lparr>abort_listeners := abort_listeners (signals w ! s)
                     @ [OnAbort (length (children w))]\<rparr>])"
    using r w6_def
    by (cases \<sigma>)
       (simp_all add: w7_def w5_def w4_def w3_def w2_def w1_def spawn_def c_def)
  show "children (snd (run t \<sigma> w)) = children w @
           [\<lparr>spawned_command = command (tasks w ! t),
             exit_listeners = OnExit t (length (promises w))
               # (case \<sigma> of None \<Rightarrow> [] | Some s \<Rightarrow> [RemoveOnAbort s (length (children w))]),
             close_listeners = [], error_listeners = [RejectOnError (length (promises w))],
             kill_requests = [], exited = False, closed = False, errored = False\<rparr>]"
    using r w6_def
    by (cases \<sigma>; cases "t < length (tasks w)")
       (simp_all add: w7_def w5_def w4_def w3_def w2_def w1_def spawn_def c_def p_def
         list_update_beyond)
  show "tasks (snd (run t \<sigma> w))
           = (tasks w)[t := (tasks w ! t)\<lparr>isRunning := True,
                                          childProcess := Some (length (children w))\<rparr>]"
    using r w6_def
    by (cases \<sigma>; cases "t < length (tasks w)")
       (simp_all add: w7_def w5_def w4_def w3_def w2_def w1_def spawn_def c_def p_def
         list_update_beyond)
qed

lemma no_entry_beyond:
  assumes "entries_ok w" and "(\<sigma>, c, p) \<in> all_entries w"
  shows "p < length (promises w)"
  using assms by (auto simp add: entries_ok_def)

lemma wf_run: "wf_world w \<Longrightarrow> wf_world (snd (run t \<sigma> w))"
proof (cases "refused t \<sigma> w")
  case True
  assume wf: "wf_world w"
  from run_refused [OF True] obtain e where r: "run t \<sigma> w = new_promise (Rejected e) w"
    by blast
  show ?thesis
    using wf
  proof (rule wf_extend [where sts = "[Rejected e]" and cs = "[]" and Enew = "{}"])
    show "all_entries (snd (run t \<sigma> w)) \<subseteq> all_entries w \<union> {}"
      by (simp add: r all_entries_def)
  qed (simp_all add: r)
next
  case False
  assume wf: "wf_world w"
  note rl = run_launched [OF False]
  have eo: "entries_ok w" using wf by (simp add: wf_world_def)
  define ch where "ch = \<lparr>spawned_command = command (tasks w ! t),
             exit_listeners = OnExit t (length (promises w))
               # (case \<sigma> of None \<Rightarrow> [] | Some s \<Rightarrow> [RemoveOnAbort s (length (children w))]),
             close_listeners = [], error_listeners = [RejectOnError (length (promises w))],
             kill_requests = [], exited = False, closed = False, errored = False\<rparr>"
  have E: "all_entries (snd (run t \<sigma> w)) = all_entries w"
    by (simp add: all_entries_def)
  have fresh: "(\<sigma>', c', length (promises w)) \<notin> all_entries w" for \<sigma>' c'
    using no_entry_beyond [OF eo] by blast
  show ?thesis
    using wf
  proof (rule wf_extend [where sts = "[Pending]" and cs = "[ch]" and Enew = "{}"])
    show "promises (snd (run t \<sigma> w)) = promises w @ [Pending]" by (rule rl(2))
    show "children (snd (run t \<sigma> w)) = children w @ [ch]" by (simp add: rl(3) ch_def)
    show "length (signals (snd (run t \<sigma> w))) = length (signals w)"
      using rl(5) by (cases \<sigma>) simp_all
    show "aborted (signals (snd (run t \<sigma> w)) ! s) = aborted (signals w ! s)"
      if "s < length (signals w)" for s
      using that rl(5) by (cases \<sigma>) (simp_all add: nth_list_update_any)
    show "l \<in> set (abort_listeners (signals w ! s))
        \<or> abort_ok (all_entries (snd (run t \<sigma> w))) (length (promises (snd (run t \<sigma> w)))) s l"
      if "s < length (signals w)" "l \<in> set (abort_listeners (signals (snd (run t \<sigma> w)) ! s))"
      for s l
      using that rl(5) by (cases \<sigma>) (auto simp add: nth_list_update_any split: if_splits)
    show "all_entries (snd (run t \<sigma> w)) \<subseteq> all_entries w \<union> {}" by (simp add: E)
    show "child_ok (all_entries (snd (run t \<sigma> w))) (length (promises (snd (run t \<sigma> w))))
        (length (children w) + k) ([ch] ! k)" if "k < length [ch]" for k
      using that fresh E rl(2) by (cases \<sigma>) (simp_all add: child_ok_def ch_def)
  qed simp
qed

lemma with_frame_fields [simp]:
  "tasks (with_frame w f) = tasks w"
  "managers (with_frame w f) = managers w"
  "children (with_frame w f) = children w"
  "signals (with_frame w f) = signals w"
  "promises (with_frame w f) = promises w"
  "frames (with_frame w f) = frames w @ [f]"
  by (simp_all add: with_frame_def)

lemma all_entries_with_frame:
  "all_entries (with_frame w (open_frame \<sigma> acc)) = all_entries w \<union> {\<sigma>} \<times> set acc"
  by (auto simp add: all_entries_def open_frame_def)

lemma spawn_one_shape:
  "children (snd (spawn_one \<sigma> t w)) = children w @
     [\<lparr>spawned_command = command (tasks w ! t), exit_listeners = [],
       close_listeners = [OnClose (proc_id (tasks w ! t)) (length (promises w))],
       error_listeners = [RejectOnError (length (promises w))],
       kill_requests = [], exited = False, closed = False, errored = False\<rparr>]"
  "signals (snd (spawn_one \<sigma> t w))
     = (case \<sigma> of None \<Rightarrow> signals w
        | Some s \<Rightarrow> (signals w)[s := (signals w ! s)
            \<lparr>abort_listeners := abort_listeners (signals w ! s)
               @ [GroupAbort (length (children w)) (length (promises w))]\<rparr>])"
  by (cases \<sigma>; simp add: spawn_one_def new_promise_def spawn_def Let_def)+

lemma wf_spawn_one:
  assumes wf: "wf_world (with_frame w (open_frame \<sigma> acc))"
  shows "wf_world (with_frame (snd (spawn_one \<sigma> t w))
           (open_frame \<sigma> (acc @ [fst (spawn_one \<sigma> t w)])))"
proof -
  define c where "c = length (children w)"
  define p where "p = length (promises w)"
  define w5 where "w5 = snd (spawn_one \<sigma> t w)"
  define wa where "wa = with_frame w (open_frame \<sigma> acc)"
  define wb where "wb = with_frame w5 (open_frame \<sigma> (acc @ [(c, p)]))"
  define ch where "ch = \<lparr>spawned_command = command (tasks w ! t), exit_listeners = [],
       close_listeners = [OnClose (proc_id (tasks w ! t)) p],
       error_listeners = [RejectOnError p],
       kill_requests = [], exited = False, closed = False, errored = False\<rparr>"
  have eo: "entries_ok wa" using wf by (simp add: wf_world_def wa_def)
  have Ea: "all_entries wa = all_entries w \<union> {\<sigma>} \<times> set acc"
    by (simp add: wa_def all_entries_with_frame)
  have "all_entries w5 = all_entries w" by (simp add: all_entries_def w5_def)
  then have Eb: "all_entries wb = all_entries wa \<union> {(\<sigma>, c, p)}"
    by (auto simp add: wb_def all_entries_with_frame Ea)
  have fresh: "(\<sigma>', c', p) \<notin> all_entries wa" for \<sigma>' c'
    using no_entry_beyond [OF eo, of \<sigma>' c' p] by (auto simp add: wa_def p_def)
  have Pb: "promises wb = promises wa @ [Pending]" by (simp add: wb_def wa_def w5_def)
  have sg: "signals wb = (case \<sigma> of None \<Rightarrow> signals w
        | Some s \<Rightarrow> (signals w)[s := (signals w ! s)
            \<lparr>abort_listeners := abort_listeners (signals w ! s) @ [GroupAbort c p]\<rparr>])"
    unfolding c_def p_def by (simp add: wb_def w5_def spawn_one_shape)
  have "wf_world wb"
    using wf [folded wa_def]
  proof (rule wf_extend [where sts = "[Pending]" and cs = "[ch]" and Enew = "{(\<sigma>, c, p)}"])
    show "promises wb = promises wa @ [Pending]" by (rule Pb)
    show "children wb = children wa @ [ch]"
      by (simp add: wb_def wa_def w5_def spawn_one_shape ch_def p_def)
    show "length (signals wb) = length (signals wa)"
      using sg by (cases \<sigma>) (simp_all add: wa_def)
    show "aborted (signals wb ! s) = aborted (signals wa ! s)" if "s < length (signals wa)" for s
      using that sg by (cases \<sigma>) (simp_all add: wa_def nth_list_update_any)
    show "l \<in> set (abort_listeners (signals wa ! s))
        \<or> abort_ok (all_entries wb) (length (promises wb)) s l"
      if "s < length (signals wa)" "l \<in> set (abort_listeners (signals wb ! s))" for s l
      using that sg fresh
      by (cases \<sigma>) (auto simp add: wa_def nth_list_update_any Eb Pb p_def split: if_splits)
    show "all_entries wb \<subseteq> all_entries wa \<union> {(\<sigma>, c, p)}" by (simp add: Eb)
    show "c' < length (children wb) \<and> length (promises wa) \<le> p' \<and> p' < length (promises wb)
        \<and> promises wb ! p' = Pending" if "(\<sigma>', c', p') \<in> {(\<sigma>, c, p)}" for \<sigma>' c' p'
      using that by (simp add: wb_def wa_def w5_def c_def p_def)
    show "child_ok (all_entries wb) (length (promises wb)) (length (children wa) + k) ([ch] ! k)"
      if "k < length [ch]" for k
      using that fresh
      by (auto simp add: child_ok_def ch_def Eb Pb wa_def p_def c_def)
  qed
  then show ?thesis by (simp add: wb_def w5_def c_def p_def)
qed

lemma wf_spawn_all:
  assumes "wf_world (with_frame w (open_frame \<sigma> acc))"
  shows "wf_world (with_frame (snd (spawn_all \<sigma> ts w))
           (open_frame \<sigma> (acc @ fst (spawn_all \<sigma> ts w))))"
  using assms
proof (induction ts arbitrary: w acc)
  case Nil
  then show ?case by simp
next
  case (Cons t ts)
  define w1 where "w1 = snd (spawn_one \<sigma> t w)"
  define cp where "cp = fst (spawn_one \<sigma> t w)"
  have so: "spawn_one \<sigma> t w = (cp, w1)" by (simp add: cp_def w1_def prod_eq_iff)
  have "wf_world (with_frame w1 (open_frame \<sigma> (acc @ [cp])))"
    unfolding w1_def cp_def using Cons.prems by (rule wf_spawn_one)
  from Cons.IH [OF this] show ?case
    by (simp add: so split_def Let_def)
qed

lemma wf_runAll: "wf_world w \<Longrightarrow> wf_world (snd (runAll m \<sigma> w))"
proof -
  assume wf: "wf_world w"
  define ts where "ts = processes (managers w ! m)"
  have "all_entries (with_frame w (open_frame \<sigma> [])) = all_entries w"
    by (simp add: all_entries_with_frame)
  then have "wf_world (with_frame w (open_frame \<sigma> []))"
    using wf by (simp add: wf_world_def entries_ok_def discipline_def terminal_at_def)
  from wf_spawn_all [OF this, of ts]
  have "wf_world (settle_frames (with_frame (snd (spawn_all \<sigma> ts w))
      (open_frame \<sigma> (fst (spawn_all \<sigma> ts w)))))"
    by (simp add: wf_settle_frames)
  then show ?thesis
    by (simp add: runAll_def split_def Let_def ts_def open_frame_def with_frame_def)
qed

lemma wf_step: "wf_world w \<Longrightarrow> wf_world (step a w)"
proof (cases a)
  case (Run t \<sigma>)
  assume "wf_world w"
  then show ?thesis using Run by (simp add: wf_run)
next
  case (RunAll m \<sigma>)
  assume "wf_world w"
  then show ?thesis using RunAll by (simp add: wf_runAll)
next
  case NewSignal
  assume "wf_world w"
  then show ?thesis using NewSignal by (simp add: wf_new_signal)
next
  case (Abort s)
  assume "wf_world w"
  then show ?thesis using Abort by (simp add: wf_abort)
next
  case (Exit c code sg)
  assume "wf_world w"
  then show ?thesis using Exit by (simp add: wf_emit_exit)
next
  case (Close c code sg)
  assume "wf_world w"
  then show ?thesis using Close by (simp add: wf_emit_close)
next
  case (Fail c err)
  assume "wf_world w"
  then show ?thesis using Fail by (simp add: wf_emit_error)
qed (erule wf_same; simp)+

lemma wf_exec: "wf_world w \<Longrightarrow> wf_world (exec as w)"
  unfolding exec_def by (induction as arbitrary: w) (simp_all add: wf_step)

lemma upt_0_Suc: "[0..<Suc n] = 0 # map Suc [0..<n]"
proof -
  have "[0..<Suc n] = 0 # [Suc 0..<Suc n]" by (rule upt_conv_Cons) simp
  then show ?thesis by (simp only: map_Suc_upt)
qed

lemma spawn_one_children:
  "children (snd (spawn_one \<sigma> t w))
     = children w @ [group_child (tasks w) t (length (promises w))]"
  by (simp add: spawn_one_shape group_child_def)

lemma spawn_all_shape_all:
  "fst (spawn_all \<sigma> ts w)
     = map (\<lambda>k. (length (children w) + k, length (promises w) + k)) [0..<length ts]
   \<and> promises (snd (spawn_all \<sigma> ts w)) = promises w @ replicate (length ts) Pending
   \<and> children (snd (spawn_all \<sigma> ts w))
     = children w @ map (\<lambda>k. group_child (tasks w) (ts ! k) (length (promises w) + k))
                       [0..<length ts]
   \<and> tasks (snd (spawn_all \<sigma> ts w)) = tasks w
   \<and> managers (snd (spawn_all \<sigma> ts w)) = managers w
   \<and> frames (snd (spawn_all \<sigma> ts w)) = frames w"
proof (induction ts arbitrary: w)
  case Nil
  show ?case by simp
next
  case (Cons t ts)
  define w1 where "w1 = snd (spawn_one \<sigma> t w)"
  define cp where "cp = (length (children w), length (promises w))"
  have so: "spawn_one \<sigma> t w = (cp, w1)" by (simp add: cp_def w1_def prod_eq_iff)
  have sa: "spawn_all \<sigma> (t # ts) w = (cp # fst (spawn_all \<sigma> ts w1), snd (spawn_all \<sigma> ts w1))"
    by (simp add: so split_def Let_def)
  have up: "[0..<Suc (length ts)] = 0 # map Suc [0..<length ts]"
    by (rule upt_0_Suc)
  note ih = Cons.IH [of w1]
  have 1: "fst (spawn_all \<sigma> (t # ts) w)
     = map (\<lambda>k. (length (children w) + k, length (promises w) + k)) [0..<length (t # ts)]"
    unfolding sa using ih by (simp add: w1_def cp_def up comp_def del: upt_Suc)
  have 2: "promises (snd (spawn_all \<sigma> (t # ts) w))
     = promises w @ replicate (length (t # ts)) Pending"
    unfolding sa using ih by (simp add: w1_def replicate_append_same)
  have 3: "children (snd (spawn_all \<sigma> (t # ts) w))
     = children w @ map (\<lambda>k. group_child (tasks w) ((t # ts) ! k) (length (promises w) + k))
                       [0..<length (t # ts)]"
    unfolding sa using ih by (simp add: w1_def spawn_one_children up comp_def del: upt_Suc)
  have 4: "tasks (snd (spawn_all \<sigma> (t # ts) w)) = tasks w"
    "managers (snd (spawn_all \<sigma> (t # ts) w)) = managers w"
    "frames (snd (spawn_all \<sigma> (t # ts) w)) = frames w"
    unfolding sa using ih by (simp_all add: w1_def)
  from 1 2 3 4 show ?case by blast
qed

lemma spawn_all_shape:
  "fst (spawn_all \<sigma> ts w)
     = map (\<lambda>k. (length (children w) + k, length (promises w) + k)) [0..<length ts]"
  "promises (snd (spawn_all \<sigma> ts w)) = promises w @ replicate (length ts) Pending"
  "children (snd (spawn_all \<sigma> ts w))
     = children w @ map (\<lambda>k. group_child (tasks w) (ts ! k) (length (promises w) + k))
                       [0..<length ts]"
  "tasks (snd (spawn_all \<sigma> ts w)) = tasks w"
  "managers (snd (spawn_all \<sigma> ts w)) = managers w"
  "frames (snd (spawn_all \<sigma> ts w)) = frames w"
  using spawn_all_shape_all [of \<sigma> ts w] by blast+

lemma spawn_all_signals:
  "signals (snd (spawn_all \<sigma> ts w))
     = (case \<sigma> of None \<Rightarrow> signals w
        | Some s \<Rightarrow> (signals w)[s := (signals w ! s)
            \<lparr>abort_listeners := abort_listeners (signals w ! s)
               @ map (\<lambda>k. GroupAbort (length (children w) + k) (length (promises w) + k))
                   [0..<length ts]\<rparr>])"
proof (induction ts arbitrary: w)
  case Nil
  show ?case by (cases \<sigma>) simp_all
next
  case (Cons t ts)
  define w1 where "w1 = snd (spawn_one \<sigma> t w)"
  define cp where "cp = (length (children w), length (promises w))"
  have so: "spawn_one \<sigma> t w = (cp, w1)" by (simp add: cp_def w1_def prod_eq_iff)
  have sa: "snd (spawn_all \<sigma> (t # ts) w) = snd (spawn_all \<sigma> ts w1)"
    by (simp add: so split_def Let_def)
  have up: "[0..<Suc (length ts)] = 0 # map Suc [0..<length ts]"
    by (rule upt_0_Suc)
  show ?case
  proof (cases \<sigma>)
    case None
    then show ?thesis
      using Cons.IH [of w1] unfolding sa by (simp add: w1_def spawn_one_shape)
  next
    case (Some s)
    show ?thesis
    proof (cases "s < length (signals w)")
      case True
      then show ?thesis
        using Cons.IH [of w1] Some
        unfolding sa by (simp add: w1_def spawn_one_shape up comp_def del: upt_Suc)
    next
      case False
      then show ?thesis
        using Cons.IH [of w1] Some
        unfolding sa by (simp add: w1_def spawn_one_shape list_update_beyond)
    qed
  qed
qed


lemma entry_in_all:
  "f \<in> set (frames w) \<Longrightarrow> (c, p) \<in> set (entries f) \<Longrightarrow> (frame_signal f, c, p) \<in> all_entries w"
  by (auto simp add: all_entries_def)

lemma runAll_shape:
  "fst (runAll m \<sigma> w) = length (frames w)"
  "promises (snd (runAll m \<sigma> w))
     = promises w @ replicate (length (processes (managers w ! m))) Pending"
  "children (snd (runAll m \<sigma> w))
     = children w @ map (\<lambda>k. group_child (tasks w) (processes (managers w ! m) ! k)
                               (length (promises w) + k))
                       [0..<length (processes (managers w ! m))]"
  "tasks (snd (runAll m \<sigma> w)) = tasks w"
  "length (frames (snd (runAll m \<sigma> w))) = Suc (length (frames w))"
  "entries (frames (snd (runAll m \<sigma> w)) ! length (frames w))
     = map (\<lambda>k. (length (children w) + k, length (promises w) + k))
         [0..<length (processes (managers w ! m))]"
  "frame_signal (frames (snd (runAll m \<sigma> w)) ! length (frames w)) = \<sigma>"
  "signals (snd (runAll m \<sigma> w))
     = (case \<sigma> of None \<Rightarrow> signals w
        | Some s \<Rightarrow> (signals w)[s := (signals w ! s)
            \<lparr>abort_listeners := abort_listeners (signals w ! s)
               @ map (\<lambda>k. GroupAbort (length (children w) + k) (length (promises w) + k))
                   [0..<length (processes (managers w ! m))]\<rparr>])"
  by (simp_all add: runAll_def split_def Let_def spawn_all_shape spawn_all_signals
      settle_frames_def nth_append)


section \<open>A settled promise stays as it is\<close>

lemma keeps_refl: "keeps p w w"
  by (simp add: keeps_def)

lemma keeps_trans: "keeps p w w1 \<Longrightarrow> keeps p w1 w2 \<Longrightarrow> keeps p w w2"
  by (auto simp add: keeps_def)

lemma keeps_same: "promises w' = promises w \<Longrightarrow> keeps p w w'"
  by (simp add: keeps_def)

lemma keeps_append: "promises w' = promises w @ sts \<Longrightarrow> keeps p w w'"
  by (simp add: keeps_def nth_append)

lemma keeps_resolve: "keeps p w (resolve q w)"
  by (simp add: keeps_def resolve_promise)

lemma keeps_reject: "keeps p w (reject q e w)"
  by (simp add: keeps_def reject_promise)

lemma keeps_fold:
  assumes "\<And>l w. keeps p w (f l w)"
  shows "keeps p w (fold f ls w)"
proof (induction ls arbitrary: w)
  case Nil
  show ?case by (simp add: keeps_refl)
next
  case (Cons l ls)
  have "keeps p w (f l w)" by (rule assms)
  moreover have "keeps p (f l w) (fold f ls (f l w))" by (rule Cons.IH)
  ultimately show ?case by (auto intro: keeps_trans)
qed

lemma keeps_call_close: "keeps p w (call_close code sg l w)"
  by (cases l) (simp add: keeps_resolve keeps_reject)

lemma keeps_call_error: "keeps p w (call_error err l w)"
  by (cases l) (simp add: keeps_reject)

lemma keeps_call_abort: "keeps p w (call_abort l w)"
proof (cases l)
  case (OnAbort c)
  then show ?thesis by (simp add: keeps_same)
next
  case (GroupAbort c q)
  have "keeps p w (kill c ''SIGTERM'' w)" by (simp add: keeps_same)
  moreover have "keeps p (kill c ''SIGTERM'' w) (reject q (Error ''AbortSignal triggered'')
      (kill c ''SIGTERM'' w))"
    by (rule keeps_reject)
  ultimately show ?thesis using GroupAbort by (auto intro: keeps_trans)
qed

lemma keeps_call_exit: "keeps p w (call_exit code sg l w)"
proof (cases l)
  case (OnExit t q)
  define w3 where "w3 = update_task t (\<lambda>x. x\<lparr>isRunning := False\<rparr>)
      (update_task t (\<lambda>x. x\<lparr>childProcess := None\<rparr>)
        (case childProcess (tasks w ! t) of None \<Rightarrow> w | Some c \<Rightarrow> removeAllListeners c w))"
  have "promises w3 = promises w" by (simp add: w3_def split: option.split)
  then have 1: "keeps p w w3" by (rule keeps_same)
  have "keeps p w3 (call_exit code sg l w)"
    using OnExit by (simp add: Let_def w3_def [symmetric] keeps_resolve keeps_reject)
  with 1 show ?thesis by (rule keeps_trans)
next
  case (RemoveOnAbort s c)
  then show ?thesis by (simp add: keeps_same)
qed

lemma keeps_emit_close: "keeps p w (emit_close c code sg w)"
proof -
  define w1 where "w1 = update_child c (\<lambda>ch. ch\<lparr>closed := True\<rparr>) w"
  have "keeps p w w1" by (simp add: w1_def keeps_same)
  moreover have "keeps p w1 (fold (call_close code sg) (close_listeners (children w ! c)) w1)"
    by (rule keeps_fold) (rule keeps_call_close)
  moreover have "keeps p (fold (call_close code sg) (close_listeners (children w ! c)) w1)
      (emit_close c code sg w)"
    by (simp add: emit_close_def Let_def w1_def keeps_same)
  ultimately show ?thesis by (blast intro: keeps_trans)
qed

lemma keeps_emit_error: "keeps p w (emit_error c err w)"
proof -
  define w1 where "w1 = update_child c (\<lambda>ch. ch\<lparr>errored := True\<rparr>) w"
  have "keeps p w w1" by (simp add: w1_def keeps_same)
  moreover have "keeps p w1 (fold (call_error err) (error_listeners (children w ! c)) w1)"
    by (rule keeps_fold) (rule keeps_call_error)
  moreover have "keeps p (fold (call_error err) (error_listeners (children w ! c)) w1)
      (emit_error c err w)"
    by (simp add: emit_error_def Let_def w1_def keeps_same)
  ultimately show ?thesis by (blast intro: keeps_trans)
qed

lemma keeps_emit_exit: "keeps p w (emit_exit c code sg w)"
proof -
  define w1 where "w1 = update_child c (\<lambda>ch. ch\<lparr>exited := True, exit_listeners := []\<rparr>) w"
  have "keeps p w w1" by (simp add: w1_def keeps_same)
  moreover have "keeps p w1 (fold (call_exit code sg) (exit_listeners (children w ! c)) w1)"
    by (rule keeps_fold) (rule keeps_call_exit)
  moreover have "keeps p (fold (call_exit code sg) (exit_listeners (children w ! c)) w1)
      (emit_exit c code sg w)"
    by (simp add: emit_exit_def Let_def w1_def keeps_same)
  ultimately show ?thesis by (blast intro: keeps_trans)
qed

lemma keeps_abort: "keeps p w (abort s w)"
proof (cases "aborted (signals w ! s)")
  case True
  then show ?thesis by (simp add: abort_def keeps_refl)
next
  case False
  define w1 where "w1 = update_signal s (\<lambda>x. x\<lparr>aborted := True\<rparr>) w"
  have "keeps p w w1" by (simp add: w1_def keeps_same)
  moreover have "keeps p w1 (fold call_abort (abort_listeners (signals w ! s)) w1)"
    by (rule keeps_fold) (rule keeps_call_abort)
  moreover have "keeps p (fold call_abort (abort_listeners (signals w ! s)) w1) (abort s w)"
    using False by (simp add: abort_def w1_def keeps_same)
  ultimately show ?thesis by (blast intro: keeps_trans)
qed

lemma keeps_step: "keeps p w (step a w)"
proof (cases a)
  case (Run t \<sigma>)
  obtain st where "promises (snd (run t \<sigma> w)) = promises w @ [st]"
    using run_promises by blast
  then show ?thesis using Run by (simp add: keeps_append keeps_refl)
next
  case (RunAll m \<sigma>)
  then show ?thesis by (simp add: keeps_append [OF runAll_shape(2)] keeps_refl)
next
  case (Abort s)
  then show ?thesis by (simp add: keeps_abort keeps_refl)
next
  case (Exit c code sg)
  then show ?thesis by (simp add: keeps_emit_exit keeps_refl)
next
  case (Close c code sg)
  then show ?thesis by (simp add: keeps_emit_close keeps_refl)
next
  case (Fail c err)
  then show ?thesis by (simp add: keeps_emit_error keeps_refl)
qed (simp_all add: keeps_same)

lemma keeps_exec: "keeps p w (exec as w)"
  unfolding exec_def
proof (induction as arbitrary: w)
  case Nil
  show ?case by (simp add: keeps_refl)
next
  case (Cons a as)
  have "keeps p w (step a w)" by (rule keeps_step)
  moreover have "keeps p (step a w) (fold step as (step a w))" by (rule Cons.IH)
  ultimately show ?case by (auto intro: keeps_trans)
qed

section \<open>The abort listener of runAll\<close>

lemma fold_call_abort_promise:
  assumes "p < length (promises w)"
  shows "promises (fold call_abort ls w) ! p
         = (if (\<exists>c. GroupAbort c p \<in> set ls) \<and> promises w ! p = Pending
            then Rejected (Error ''AbortSignal triggered'') else promises w ! p)"
  using assms
proof (induction ls arbitrary: w)
  case Nil
  then show ?case by simp
next
  case (Cons l ls)
  have len: "p < length (promises (call_abort l w))" using Cons.prems by simp
  have one: "promises (call_abort l w) ! p
      = (if (\<exists>c. l = GroupAbort c p) \<and> promises w ! p = Pending
         then Rejected (Error ''AbortSignal triggered'') else promises w ! p)"
    using Cons.prems by (cases l) (auto simp add: reject_promise)
  show ?case
    using Cons.IH [OF len] one by auto
qed

lemma call_abort_exited:
  "exited (children w ! k) \<Longrightarrow> children (call_abort l w) ! k = children w ! k"
  by (cases l) (auto simp add: kill_child)

lemma fold_call_abort_exited:
  "exited (children w ! k) \<Longrightarrow> children (fold call_abort ls w) ! k = children w ! k"
proof (induction ls arbitrary: w)
  case Nil
  show ?case by simp
next
  case (Cons l ls)
  then have "children (call_abort l w) ! k = children w ! k" by (simp add: call_abort_exited)
  then show ?case using Cons by simp
qed

lemma fold_call_abort_sigterm:
  assumes "GroupAbort c p \<in> set ls" "c < length (children w)" "\<not> exited (children w ! c)"
  shows "''SIGTERM'' \<in> set (kill_requests (children (fold call_abort ls w) ! c))"
  using assms
proof (induction ls arbitrary: w)
  case Nil
  then show ?case by simp
next
  case (Cons l ls)
  obtain ks where ks: "children (fold call_abort ls (call_abort l w)) ! c
      = (children (call_abort l w) ! c)
          \<lparr>kill_requests := kill_requests (children (call_abort l w) ! c) @ ks\<rparr>"
    using fold_call_abort_child by blast
  obtain ks1 where ks1: "children (call_abort l w) ! c
      = (children w ! c)\<lparr>kill_requests := kill_requests (children w ! c) @ ks1\<rparr>"
    using call_abort_child by blast
  show ?case
  proof (cases "l = GroupAbort c p")
    case True
    then have "''SIGTERM'' \<in> set (kill_requests (children (call_abort l w) ! c))"
      using Cons.prems by (simp add: kill_child)
    then show ?thesis by (simp add: ks)
  next
    case False
    then have "GroupAbort c p \<in> set ls" using Cons.prems by simp
    moreover have "\<not> exited (children (call_abort l w) ! c)"
      using Cons.prems by (simp add: ks1)
    moreover have "c < length (children (call_abort l w))" using Cons.prems by simp
    ultimately show ?thesis using Cons.IH by simp
  qed
qed

lemma group_abort_listener:
  assumes s: "s < length (signals w)" and na: "\<not> aborted (signals w ! s)"
    and l: "GroupAbort c p \<in> set (abort_listeners (signals w ! s))"
    and p: "p < length (promises w)"
  shows "promises (abort s w) ! p
           = (if promises w ! p = Pending then Rejected (Error ''AbortSignal triggered'')
              else promises w ! p)
         \<and> (c < length (children w) \<and> \<not> exited (children w ! c) \<longrightarrow>
              ''SIGTERM'' \<in> set (kill_requests (children (abort s w) ! c)))
         \<and> (\<forall>k. exited (children w ! k) \<longrightarrow> children (abort s w) ! k = children w ! k)
         \<and> (\<forall>as. promises (exec as (abort s w)) ! p = promises (abort s w) ! p)
         \<and> (\<forall>m k. k < length (processes (managers w ! m)) \<longrightarrow>
              GroupAbort (length (children w) + k) (length (promises w) + k)
                \<in> set (abort_listeners (signals (snd (runAll m (Some s) w)) ! s)))"
proof -
  define w1 where "w1 = update_signal s (\<lambda>x. x\<lparr>aborted := True\<rparr>) w"
  define ls where "ls = abort_listeners (signals w ! s)"
  have ab: "abort s w = settle_frames (fold call_abort ls w1)"
    using na by (simp add: abort_def w1_def ls_def)
  have 1: "promises (abort s w) ! p
           = (if promises w ! p = Pending then Rejected (Error ''AbortSignal triggered'')
              else promises w ! p)"
    using l p by (auto simp add: ab fold_call_abort_promise w1_def ls_def)
  have 2: "''SIGTERM'' \<in> set (kill_requests (children (abort s w) ! c))"
    if "c < length (children w)" "\<not> exited (children w ! c)"
    unfolding ab settle_frames_fields
    using l that by (intro fold_call_abort_sigterm [where p = p]) (simp_all add: w1_def ls_def)
  have 3: "children (abort s w) ! k = children w ! k" if "exited (children w ! k)" for k
    using that by (simp add: ab fold_call_abort_exited w1_def)
  have settled: "promises (abort s w) ! p \<noteq> Pending" "p < length (promises (abort s w))"
    using 1 p by (auto simp add: ab w1_def)
  have 4: "promises (exec as (abort s w)) ! p = promises (abort s w) ! p" for as
    using keeps_exec [of p "abort s w" as] settled by (simp add: keeps_def)
  have 5: "GroupAbort (length (children w) + k) (length (promises w) + k)
                \<in> set (abort_listeners (signals (snd (runAll m (Some s) w)) ! s))"
    if "k < length (processes (managers w ! m))" for m k
    using s that by (simp add: runAll_shape)
  from 1 2 3 4 5 show ?thesis by blast
qed

lemmas model_defs =
  exec_def exists_signal_def empty_world_def new_process_def new_manager_def new_signal_def runAll_def
  spawn_one_def new_promise_def spawn_def update_child_def update_signal_def update_task_def
  settle_frames_def settle_frame_def emit_close_def emit_exit_def emit_error_def abort_def
  kill_def resolve_def reject_def push_error_def batch_error_def show_int_def show_nat.simps
  Let_def





section \<open>The abort listeners of runAll stay attached\<close>

lemma kg_refl: "keeps_group w w"
  by (simp add: keeps_group_def)

lemma kg_trans: "keeps_group w w1 \<Longrightarrow> keeps_group w1 w2 \<Longrightarrow> keeps_group w w2"
  by (fastforce simp add: keeps_group_def)

lemma kg_same: "signals w' = signals w \<Longrightarrow> keeps_group w w'"
  by (simp add: keeps_group_def)

lemma kg_update_signal:
  assumes "\<And>x c p. GroupAbort c p \<in> set (abort_listeners x)
             \<Longrightarrow> GroupAbort c p \<in> set (abort_listeners (h x))"
  shows "keeps_group w (update_signal s h w)"
  using assms by (auto simp add: keeps_group_def nth_list_update_any)

lemma kg_fold:
  assumes "\<And>l w. keeps_group w (f l w)"
  shows "keeps_group w (fold f ls w)"
proof (induction ls arbitrary: w)
  case Nil
  show ?case by (simp add: kg_refl)
next
  case (Cons l ls)
  have "keeps_group w (f l w)" by (rule assms)
  moreover have "keeps_group (f l w) (fold f ls (f l w))" by (rule Cons.IH)
  ultimately show ?case by (auto intro: kg_trans)
qed

lemma all_entries_fold:
  assumes "\<And>l w. all_entries (f l w) = all_entries w"
  shows "all_entries (fold f ls w) = all_entries w"
  by (induction ls arbitrary: w) (simp_all add: assms)

lemma kg_call_exit: "keeps_group w (call_exit code sg l w)"
proof (cases l)
  case (OnExit t p)
  have "signals (call_exit code sg l w) = signals w"
    using OnExit by (simp add: Let_def split: option.split)
  then show ?thesis by (rule kg_same)
next
  case (RemoveOnAbort s c)
  then show ?thesis by (simp add: kg_update_signal)
qed

lemma kg_emit_exit: "keeps_group w (emit_exit c code sg w)"
proof -
  define w1 where "w1 = update_child c (\<lambda>ch. ch\<lparr>exited := True, exit_listeners := []\<rparr>) w"
  have "keeps_group w w1" by (simp add: w1_def kg_same)
  moreover have "keeps_group w1 (fold (call_exit code sg) (exit_listeners (children w ! c)) w1)"
    by (rule kg_fold) (rule kg_call_exit)
  moreover have "keeps_group (fold (call_exit code sg) (exit_listeners (children w ! c)) w1)
      (emit_exit c code sg w)"
    by (simp add: emit_exit_def Let_def w1_def kg_same)
  ultimately show ?thesis by (blast intro: kg_trans)
qed

lemma signals_fold_call_close [simp]:
  "signals (fold (call_close code sg) ls w) = signals w"
  by (induction ls arbitrary: w) simp_all

lemma signals_fold_call_error [simp]:
  "signals (fold (call_error err) ls w) = signals w"
  by (induction ls arbitrary: w) simp_all

lemma kg_emit_close: "keeps_group w (emit_close c code sg w)"
  by (rule kg_same) (simp add: emit_close_def Let_def)

lemma kg_emit_error: "keeps_group w (emit_error c err w)"
  by (rule kg_same) (simp add: emit_error_def Let_def)

lemma kg_abort: "keeps_group w (abort s w)"
proof (cases "aborted (signals w ! s)")
  case True
  then show ?thesis by (simp add: abort_def kg_refl)
next
  case False
  have "keeps_group w (update_signal s (\<lambda>x. x\<lparr>aborted := True\<rparr>) w)"
    by (rule kg_update_signal) simp
  moreover have "keeps_group (update_signal s (\<lambda>x. x\<lparr>aborted := True\<rparr>) w) (abort s w)"
    using False by (intro kg_same) (simp add: abort_def)
  ultimately show ?thesis by (rule kg_trans)
qed

lemma kg_run: "keeps_group w (snd (run t \<sigma> w))"
proof (cases "refused t \<sigma> w")
  case True
  from run_refused [OF True] obtain e where "run t \<sigma> w = new_promise (Rejected e) w" by blast
  then show ?thesis by (simp add: kg_same)
next
  case False
  show ?thesis
    using run_launched(5) [OF False]
    by (cases \<sigma>) (auto simp add: keeps_group_def nth_list_update_any)
qed

lemma kg_runAll: "keeps_group w (snd (runAll m \<sigma> w))"
  using runAll_shape(8) [of m \<sigma> w]
  by (cases \<sigma>) (auto simp add: keeps_group_def nth_list_update_any)

lemma kg_step: "keeps_group w (step a w)"
proof (cases a)
  case (Run t \<sigma>)
  then show ?thesis by (simp add: kg_run kg_refl)
next
  case (RunAll m \<sigma>)
  then show ?thesis by (simp add: kg_runAll kg_refl)
next
  case NewSignal
  then show ?thesis by (auto simp add: keeps_group_def nth_append)
next
  case (Abort s)
  then show ?thesis by (simp add: kg_abort kg_refl)
next
  case (Exit c code sg)
  then show ?thesis by (simp add: kg_emit_exit kg_refl)
next
  case (Close c code sg)
  then show ?thesis by (simp add: kg_emit_close kg_refl)
next
  case (Fail c err)
  then show ?thesis by (simp add: kg_emit_error kg_refl)
qed (simp_all add: kg_same)

lemma all_entries_emit [simp]:
  "all_entries (emit_exit c code sg w) = all_entries w"
  "all_entries (emit_close c code sg w) = all_entries w"
  "all_entries (emit_error c err w) = all_entries w"
  "all_entries (abort s w) = all_entries w"
  by (simp_all add: emit_exit_def emit_close_def emit_error_def abort_def Let_def
      all_entries_fold)

lemma all_entries_run [simp]: "all_entries (snd (run t \<sigma> w)) = all_entries w"
  by (simp add: all_entries_def)

lemma all_entries_runAll:
  "all_entries (snd (runAll m \<sigma> w))
     = all_entries w \<union> {\<sigma>} \<times> (\<lambda>k. (length (children w) + k, length (promises w) + k))
                                ` {0..<length (processes (managers w ! m))}"
  by (auto simp add: all_entries_def runAll_def split_def Let_def settle_frames_def
      spawn_all_shape)

lemma registered_later:
  assumes "registered w" and "all_entries w' = all_entries w" and "keeps_group w w'"
  shows "registered w'"
  using assms unfolding registered_def keeps_group_def by fastforce

lemma registered_runAll:
  assumes "registered w" and "exists_signal \<sigma> w"
  shows "registered (snd (runAll m \<sigma> w))"
  unfolding registered_def
proof (intro ballI, clarify)
  fix \<sigma>' c p s
  assume e: "(Some s, c, p) \<in> all_entries (snd (runAll m \<sigma> w))"
  have kg: "keeps_group w (snd (runAll m \<sigma> w))" by (rule kg_runAll)
  from e consider (old) "(Some s, c, p) \<in> all_entries w"
    | (new) k where "\<sigma> = Some s" "k < length (processes (managers w ! m))"
        "c = length (children w) + k" "p = length (promises w) + k"
    by (auto simp add: all_entries_runAll)
  then show "s < length (signals (snd (runAll m \<sigma> w)))
      \<and> GroupAbort c p \<in> set (abort_listeners (signals (snd (runAll m \<sigma> w)) ! s))"
  proof cases
    case old
    then have "s < length (signals w)"
      and "GroupAbort c p \<in> set (abort_listeners (signals w ! s))"
      using assms(1) by (auto simp add: registered_def)
    then show ?thesis using kg by (auto simp add: keeps_group_def)
  next
    case new
    then have "s < length (signals w)" using assms(2) by (simp add: exists_signal_def)
    then show ?thesis using new by (simp add: runAll_shape)
  qed
qed

lemma registered_step: "registered w \<Longrightarrow> registered (step a w)"
proof (cases a)
  case (RunAll m \<sigma>)
  assume "registered w"
  then show ?thesis using RunAll by (simp add: registered_runAll)
next
  case (Run t \<sigma>)
  assume r: "registered w"
  have "registered (snd (run t \<sigma> w))"
    using r by (rule registered_later) (simp_all add: kg_run)
  then show ?thesis using Run r by simp
next
  case (Abort s)
  assume r: "registered w"
  have "registered (abort s w)" using r by (rule registered_later) (simp_all add: kg_abort)
  then show ?thesis using Abort r by simp
next
  case (Exit c code sg)
  assume r: "registered w"
  have "registered (emit_exit c code sg w)"
    using r by (rule registered_later) (simp_all add: kg_emit_exit)
  then show ?thesis using Exit r by simp
next
  case (Close c code sg)
  assume r: "registered w"
  have "registered (emit_close c code sg w)"
    using r by (rule registered_later) (simp_all add: kg_emit_close)
  then show ?thesis using Close r by simp
next
  case (Fail c err)
  assume r: "registered w"
  have "registered (emit_error c err w)"
    using r by (rule registered_later) (simp_all add: kg_emit_error)
  then show ?thesis using Fail r by simp
next
  case (NewProcess i cmd)
  assume r: "registered w"
  show ?thesis
    unfolding NewProcess by (rule registered_later [OF r _ kg_step]) (simp add: all_entries_def)
next
  case (Memoize t)
  assume r: "registered w"
  show ?thesis
    unfolding Memoize by (rule registered_later [OF r _ kg_step]) (simp add: all_entries_def)
next
  case (NewManager ps)
  assume r: "registered w"
  show ?thesis
    unfolding NewManager by (rule registered_later [OF r _ kg_step]) (simp add: all_entries_def)
next
  case (AddProcess m t)
  assume r: "registered w"
  show ?thesis
    unfolding AddProcess by (rule registered_later [OF r _ kg_step]) (simp add: all_entries_def)
next
  case (RemoveProcess m i)
  assume r: "registered w"
  show ?thesis
    unfolding RemoveProcess by (rule registered_later [OF r _ kg_step]) (simp add: all_entries_def)
next
  case NewSignal
  assume r: "registered w"
  show ?thesis
    unfolding NewSignal by (rule registered_later [OF r _ kg_step]) (simp add: all_entries_def)
qed

lemma registered_empty: "registered empty_world"
  by (simp add: registered_def all_entries_def empty_world_def)

lemma registered_exec: "registered w \<Longrightarrow> registered (exec as w)"
  unfolding exec_def by (induction as arbitrary: w) (simp_all add: registered_step)

lemma cancel_history_world:
  "frames (exec cancel_history empty_world)
     = [\<lparr>frame_signal = Some 0, entries = [(0, 0), (1, 1)], errors = [], outcome = Pending\<rparr>]"
  "promises (exec cancel_history empty_world) = [Resolved, Pending]"
  "map exited (children (exec cancel_history empty_world)) = [True, False]"
  "map aborted (signals (exec cancel_history empty_world)) = [False]"
  by (simp_all add: cancel_history_def model_defs)

section \<open>The memoized task\<close>

text \<open>
  C1. The claim: once \<open>M.run(K)\<close> has succeeded for a memoized task \<open>M\<close>, a later
  \<open>M.run(K)\<close> resolves at once and launches no process. In the code, \<open>memoize\<close>
  returns a plain task with no cache: after the task of \<open>exit 0\<close> is memoized, run
  without a signal and seen to exit with code 0, the second \<open>run\<close> launches a second
  process and its promise is pending.
\<close>

theorem memoize_rerun_spawns_again:
  "let w1 = exec [NewProcess 1 ''exit 0'', Memoize 0, Run 1 None, Exit 0 (Some 0) None]
              empty_world;
       (p, w2) = run 1 None w1
   in promises w1 = [Resolved] \<and> length (children w1) = 1
      \<and> length (children w2) = 2 \<and> promises w2 ! p = Pending
      \<and> spawned_command (children w2 ! 1) = ''exit 0''"
  by code_simp

text \<open>
  C4. The claim: concurrent calls \<open>M.run(K)\<close> of a memoized task share the one
  execution in flight, and none is rejected as already running. In the code the second
  call, made while the first is in flight, is rejected with
  \<open>Process is already running\<close>, and the first stays pending.
\<close>

theorem memoize_concurrent_run_rejected:
  "let w = exec [NewProcess 1 ''sleep 5'', Memoize 0, Run 1 None] empty_world;
       (p, w') = run 1 None w
   in promises w = [Pending] \<and> length (children w) = 1
      \<and> promises w' ! p = Rejected (Error ''Process is already running'')
      \<and> promises w' ! 0 = Pending"
  by code_simp

section \<open>The outcome of a run\<close>

text \<open>
  C2. The claim: a command that exits with a code \<open>n\<close> other than 0 and no signal
  makes \<open>run\<close> reject with the process-failed outcome carrying \<open>n\<close>. In the code,
  \<open>onExit\<close> tests \<open>signal === null\<close> before it reaches the process-failed branch:
  \<open>exit 7\<close> is rejected as aborted with signal null, and the process-failed branch is
  left to a process ended by a signal other than SIGABRT, whose code is null.
\<close>

theorem exit_7_rejects_as_aborted:
  "promises (exec [NewProcess 1 ''exit 7'', Run 0 None, Exit 0 (Some 7) None] empty_world)
     = [Rejected (Error ''Process aborted with signal: null'')]
   \<and> promises (exec [NewProcess 1 ''kill -TERM $$'', Run 0 None,
                      Exit 0 None (Some ''SIGTERM'')] empty_world)
     = [Rejected (Error ''Process failed with code null'')]"
  by code_simp

text \<open>
  C3. The claim: every terminal path of \<open>run\<close>, the launch error too, releases the
  handle, removes the listeners and resets the running flag, so that a later \<open>run\<close> is
  not rejected as already running. In the code the error listener only rejects: after
  an error event the task is still running and holds its handle, the listeners are
  still attached, and the next \<open>run\<close> is rejected with \<open>Process is already running\<close>.
\<close>

theorem error_path_leaves_task_running:
  "let w = exec [NewProcess 1 ''exit 0'', Run 0 None, Fail 0 (Error ''spawn /bin/sh ENOENT'')]
             empty_world;
       (p, w') = run 0 None w
   in promises w = [Rejected (Error ''spawn /bin/sh ENOENT'')]
      \<and> isRunning (tasks w ! 0) \<and> childProcess (tasks w ! 0) = Some 0
      \<and> exit_listeners (children w ! 0) = [OnExit 0 0]
      \<and> error_listeners (children w ! 0) = [RejectOnError 0]
      \<and> promises w' ! p = Rejected (Error ''Process is already running'')
      \<and> length (children w') = 1"
  by code_simp

text \<open>
  C8. For every task, every world and every signal that is already aborted, \<open>run\<close>
  returns a promise that is already rejected with \<open>AbortSignal already aborted\<close>, and
  it spawns no process and changes no task and no signal.
\<close>

theorem run_already_aborted:
  assumes "aborted (signals w ! s)"
  shows "fst (run t (Some s) w) = length (promises w)
         \<and> promises (snd (run t (Some s) w))
             = promises w @ [Rejected (Error ''AbortSignal already aborted'')]
         \<and> children (snd (run t (Some s) w)) = children w
         \<and> tasks (snd (run t (Some s) w)) = tasks w
         \<and> signals (snd (run t (Some s) w)) = signals w"
  using assms by (simp add: run_def new_promise_def)

theorem run_already_aborted_witness:
  "aborted (signals aborted_world ! 0)
   \<and> (fst (run 0 (Some 0) aborted_world) = length (promises aborted_world)
      \<and> promises (snd (run 0 (Some 0) aborted_world))
          = promises aborted_world @ [Rejected (Error ''AbortSignal already aborted'')]
      \<and> children (snd (run 0 (Some 0) aborted_world)) = children aborted_world
      \<and> tasks (snd (run 0 (Some 0) aborted_world)) = tasks aborted_world
      \<and> signals (snd (run 0 (Some 0) aborted_world)) = signals aborted_world)
   \<and> children aborted_world = []"
proof (intro conjI)
  show h: "aborted (signals aborted_world ! 0)"
    by code_simp
  show "fst (run 0 (Some 0) aborted_world) = length (promises aborted_world)"
    and "promises (snd (run 0 (Some 0) aborted_world))
          = promises aborted_world @ [Rejected (Error ''AbortSignal already aborted'')]"
    and "children (snd (run 0 (Some 0) aborted_world)) = children aborted_world"
    and "tasks (snd (run 0 (Some 0) aborted_world)) = tasks aborted_world"
    and "signals (snd (run 0 (Some 0) aborted_world)) = signals aborted_world"
    using run_already_aborted [OF h, of 0] by blast+
  show "children aborted_world = []"
    by code_simp
qed

text \<open>
  C9. The claim: when the signal is triggered while a \<open>run\<close> is in flight, the task
  asks the process to terminate and, once the executor reports the exit, the \<open>run\<close>
  is rejected as aborted; it never resolves. In the code \<open>onAbort\<close> only sends
  SIGABRT (lines 79 to 81) and keeps no trace of the trigger, and \<open>onExit\<close> looks at
  the exit code first (lines 65 and 66). The shell of the command below postpones the
  trap of SIGABRT until \<open>sleep\<close> has ended and then exits with the code 0: the
  trigger sends SIGABRT and leaves the promise pending, the exit with the code 0 that
  follows resolves the \<open>run\<close>, and only a process that the signal has ended is
  rejected as aborted.
\<close>

theorem abort_then_exit_0_resolves:
  "let w = exec [NewProcess 1 ''trap : ABRT; sleep 1'', NewSignal, Run 0 (Some 0), Abort 0]
             empty_world
   in promises w = [Pending]
      \<and> aborted (signals w ! 0)
      \<and> kill_requests (children w ! 0) = [''SIGABRT'']
      \<and> promises (exec [Exit 0 (Some 0) None] w) = [Resolved]
      \<and> promises (exec [Exit 0 None (Some ''SIGABRT'')] w)
          = [Rejected (Error ''Process aborted with signal: SIGABRT'')]"
  by code_simp

section \<open>The group run\<close>

text \<open>
  C5. The claim: under \<open>runAll\<close>, triggering the signal only requests termination and
  never by itself gives a process its outcome, which only the later exit notification
  decides. In the code the abort listener of \<open>runAll\<close> kills the process and rejects its
  promise in the same call: for a group of one \<open>sleep 5\<close>, the trigger rejects the
  pending promise with \<open>AbortSignal triggered\<close> and settles \<open>runAll\<close>, while the
  process has neither exited nor closed; the exit and close that follow, even with
  code 0, change nothing.
\<close>

theorem group_abort_settles_without_exit:
  "let w = exec [NewProcess 1 ''sleep 5'', NewManager [0], NewSignal, RunAll 0 (Some 0)]
             empty_world
   in promises w = [Pending]
      \<and> promises (abort 0 w) = [Rejected (Error ''AbortSignal triggered'')]
      \<and> \<not> exited (children (abort 0 w) ! 0) \<and> \<not> closed (children (abort 0 w) ! 0)
      \<and> kill_requests (children (abort 0 w) ! 0) = [''SIGTERM'']
      \<and> outcome (frames (abort 0 w) ! 0)
          = Rejected (Error (''At least one process has exited with an error:'' @ [CHR 0x0A]
              @ ''AbortSignal triggered''))
      \<and> promises (exec [Exit 0 (Some 0) None, Close 0 (Some 0) None] (abort 0 w))
          = [Rejected (Error ''AbortSignal triggered'')]"
  by code_simp

text \<open>
  C5, as amended. In the world any history of calls and events leads to, take a frame
  of \<open>runAll\<close> made under a signal that is not aborted yet. Triggering the signal
  rejects at once, with \<open>AbortSignal triggered\<close>, the promise of every entry of the
  frame that is pending, and leaves a settled promise as it is; it sends SIGTERM to
  the process of every entry unless the process has exited; whatever calls and events
  follow, the promise keeps the state the trigger left it in; and every process that
  has exited is left as it is.
\<close>

theorem group_abort_rejects_pending:
  "\<forall>f \<in> set (frames (exec as empty_world)). \<forall>s.
     frame_signal f = Some s \<longrightarrow> \<not> aborted (signals (exec as empty_world) ! s) \<longrightarrow>
       (\<forall>(c, p) \<in> set (entries f).
           promises (abort s (exec as empty_world)) ! p
             = (if promises (exec as empty_world) ! p = Pending
                then Rejected (Error ''AbortSignal triggered'')
                else promises (exec as empty_world) ! p)
           \<and> (\<not> exited (children (exec as empty_world) ! c) \<longrightarrow>
                ''SIGTERM'' \<in> set (kill_requests (children (abort s (exec as empty_world)) ! c)))
           \<and> (\<forall>bs. promises (exec bs (abort s (exec as empty_world))) ! p
                     = promises (abort s (exec as empty_world)) ! p))
       \<and> (\<forall>k. exited (children (exec as empty_world) ! k) \<longrightarrow>
              children (abort s (exec as empty_world)) ! k = children (exec as empty_world) ! k)"
proof (intro ballI allI impI)
  define w where "w = exec as empty_world"
  fix f s
  assume f: "f \<in> set (frames (exec as empty_world))" and fs: "frame_signal f = Some s"
    and na: "\<not> aborted (signals (exec as empty_world) ! s)"
  have reg: "registered w" unfolding w_def by (rule registered_exec [OF registered_empty])
  have eo: "entries_ok w"
    using wf_exec [OF wf_empty, of as] by (simp add: wf_world_def w_def)
  have ex: "children (abort s w) ! k = children w ! k" if "exited (children w ! k)" for k
    using that na by (simp add: abort_def fold_call_abort_exited w_def)
  have en: "promises (abort s w) ! p
             = (if promises w ! p = Pending then Rejected (Error ''AbortSignal triggered'')
                else promises w ! p)
           \<and> (\<not> exited (children w ! c) \<longrightarrow>
                ''SIGTERM'' \<in> set (kill_requests (children (abort s w) ! c)))
           \<and> (\<forall>bs. promises (exec bs (abort s w)) ! p = promises (abort s w) ! p)"
    if m: "(c, p) \<in> set (entries f)" for c p
  proof -
    have a: "(Some s, c, p) \<in> all_entries w"
      using entry_in_all [of f w c p] f m fs by (simp add: w_def)
    then have s: "s < length (signals w)"
      and l: "GroupAbort c p \<in> set (abort_listeners (signals w ! s))"
      using reg by (auto simp add: registered_def)
    from a have c: "c < length (children w)" and p: "p < length (promises w)"
      using eo by (auto simp add: entries_ok_def)
    from group_abort_listener [OF s na [folded w_def] l p] c show ?thesis by blast
  qed
  show "(\<forall>(c, p) \<in> set (entries f).
           promises (abort s (exec as empty_world)) ! p
             = (if promises (exec as empty_world) ! p = Pending
                then Rejected (Error ''AbortSignal triggered'')
                else promises (exec as empty_world) ! p)
           \<and> (\<not> exited (children (exec as empty_world) ! c) \<longrightarrow>
                ''SIGTERM'' \<in> set (kill_requests (children (abort s (exec as empty_world)) ! c)))
           \<and> (\<forall>bs. promises (exec bs (abort s (exec as empty_world))) ! p
                     = promises (abort s (exec as empty_world)) ! p))
       \<and> (\<forall>k. exited (children (exec as empty_world) ! k) \<longrightarrow>
              children (abort s (exec as empty_world)) ! k = children (exec as empty_world) ! k)"
    using en ex unfolding w_def by auto
qed

theorem group_abort_rejects_pending_witness:
  "0 < length (frames (exec cancel_history empty_world))
   \<and> frame_signal (frames (exec cancel_history empty_world) ! 0) = Some 0
   \<and> \<not> aborted (signals (exec cancel_history empty_world) ! 0)
   \<and> entries (frames (exec cancel_history empty_world) ! 0) = [(0, 0), (1, 1)]
   \<and> promises (exec cancel_history empty_world) = [Resolved, Pending]
   \<and> exited (children (exec cancel_history empty_world) ! 0)
   \<and> \<not> exited (children (exec cancel_history empty_world) ! 1)
   \<and> promises (abort 0 (exec cancel_history empty_world)) ! 0 = Resolved
   \<and> promises (abort 0 (exec cancel_history empty_world)) ! 1
       = Rejected (Error ''AbortSignal triggered'')
   \<and> children (abort 0 (exec cancel_history empty_world)) ! 0
       = children (exec cancel_history empty_world) ! 0
   \<and> ''SIGTERM'' \<in> set (kill_requests (children (abort 0 (exec cancel_history empty_world)) ! 1))
   \<and> promises (exec [Close 1 (Some 0) None] (abort 0 (exec cancel_history empty_world))) ! 1
       = Rejected (Error ''AbortSignal triggered'')"
proof -
  let ?w = "exec cancel_history empty_world"
  note cw = cancel_history_world
  have n: "0 < length (frames ?w)" by (simp add: cw)
  then have f: "frames ?w ! 0 \<in> set (frames ?w)" by (rule nth_mem)
  have fs: "frame_signal (frames ?w ! 0) = Some 0" by (simp add: cw)
  have en: "entries (frames ?w ! 0) = [(0, 0), (1, 1)]" by (simp add: cw)
  have ex: "map exited (children ?w) ! 0" "\<not> map exited (children ?w) ! 1" by (simp_all add: cw)
  have len: "length (children ?w) = 2" using cw(3) [THEN arg_cong, of length] by simp
  have ex': "exited (children ?w ! 0)" "\<not> exited (children ?w ! 1)"
    using ex len by simp_all
  have "\<not> map aborted (signals ?w) ! 0" by (simp add: cw)
  moreover have "length (signals ?w) = 1" using cw(4) [THEN arg_cong, of length] by simp
  ultimately have na: "\<not> aborted (signals ?w ! 0)" by simp
  have m0: "(0, 0) \<in> set (entries (frames ?w ! 0))" and m1: "(1, 1) \<in> set (entries (frames ?w ! 0))"
    by (simp_all add: en)
  note g = group_abort_rejects_pending [of cancel_history, rule_format, OF f fs na]
  from g m0 have a: "promises (abort 0 ?w) ! 0 = Resolved" by (fastforce simp add: cw)
  from g m1 have c: "promises (abort 0 ?w) ! 1 = Rejected (Error ''AbortSignal triggered'')"
    by (fastforce simp add: cw)
  from g ex' have b: "children (abort 0 ?w) ! 0 = children ?w ! 0" by blast
  from g m1 ex' have d: "''SIGTERM'' \<in> set (kill_requests (children (abort 0 ?w) ! 1))"
    by blast
  from g m1 have "promises (exec [Close 1 (Some 0) None] (abort 0 ?w)) ! 1
      = promises (abort 0 ?w) ! 1"
    by blast
  then have e: "promises (exec [Close 1 (Some 0) None] (abort 0 ?w)) ! 1
      = Rejected (Error ''AbortSignal triggered'')"
    by (simp only: c)
  from n fs na en cw(2) ex' a b c d e show ?thesis by blast
qed







section \<open>The collection of a manager\<close>

text \<open>
  C10. For every world, manager and id, \<open>removeProcess\<close> returns the manager it was
  called on, as \<open>addProcess\<close> does; the tasks left have another id; they are a
  subsequence of the tasks before, so their relative order is kept; every task with
  another id is left as many times as it was there, so all the tasks with the id are
  removed and no other; nothing changes when no task has the id; the tasks themselves
  and the other managers are untouched.
\<close>

theorem removeProcess_filters:
  assumes "m < length (managers w)"
  shows "fst (removeProcess m i w) = m
         \<and> fst (addProcess m t w) = m
         \<and> (\<forall>x \<in> set (processes (managers (snd (removeProcess m i w)) ! m)).
               proc_id (tasks w ! x) \<noteq> i)
         \<and> subseq (processes (managers (snd (removeProcess m i w)) ! m))
                  (processes (managers w ! m))
         \<and> (\<forall>x. proc_id (tasks w ! x) \<noteq> i \<longrightarrow>
               count_list (processes (managers (snd (removeProcess m i w)) ! m)) x
               = count_list (processes (managers w ! m)) x)
         \<and> ((\<forall>x \<in> set (processes (managers w ! m)). proc_id (tasks w ! x) \<noteq> i)
               \<longrightarrow> snd (removeProcess m i w) = w)
         \<and> tasks (snd (removeProcess m i w)) = tasks w
         \<and> (\<forall>k. k \<noteq> m \<longrightarrow> managers (snd (removeProcess m i w)) ! k = managers w ! k)"
proof -
  let ?keep = "\<lambda>x. proc_id (tasks w ! x) \<noteq> i"
  let ?before = "processes (managers w ! m)"
  have after: "processes (managers (snd (removeProcess m i w)) ! m) = filter ?keep ?before"
    using assms by (simp add: removeProcess_def)
  have count: "count_list (filter ?keep xs) x = count_list xs x" if "?keep x" for xs x
    using that by (induction xs) auto
  have noop: "snd (removeProcess m i w) = w" if "\<forall>x \<in> set ?before. ?keep x"
  proof -
    from that have "filter ?keep ?before = ?before" by (simp add: filter_id_conv)
    moreover have e: "\<lparr>processes = processes (managers w ! m)\<rparr> = managers w ! m" by simp
    ultimately have "snd (removeProcess m i w) = w\<lparr>managers := (managers w)[m := managers w ! m]\<rparr>"
      unfolding removeProcess_def snd_conv by (simp only: e)
    then show ?thesis by simp
  qed
  show ?thesis
    unfolding after
    using count noop by (simp add: removeProcess_def addProcess_def)
qed

theorem removeProcess_filters_witness:
  "0 < length (managers group_world)
   \<and> processes (managers group_world ! 0) = [0, 1, 2, 3]
   \<and> fst (removeProcess 0 1 group_world) = 0
   \<and> fst (addProcess 0 1 group_world) = 0
   \<and> processes (managers (snd (removeProcess 0 1 group_world)) ! 0) = [1, 3]
   \<and> proc_id (tasks group_world ! 3) \<noteq> 1
   \<and> subseq [1, 3] (processes (managers group_world ! 0))
   \<and> count_list (processes (managers (snd (removeProcess 0 1 group_world)) ! 0)) 3 = 1
   \<and> managers (snd (removeProcess 0 1 group_world)) ! 1 = managers group_world ! 1
   \<and> snd (removeProcess 0 7 group_world) = group_world"
proof -
  have h: "0 < length (managers group_world)" by code_simp
  have a: "processes (managers group_world ! 0) = [0, 1, 2, 3]" by code_simp
  have b: "processes (managers (snd (removeProcess 0 1 group_world)) ! 0) = [1, 3]" by code_simp
  have k7: "\<forall>x \<in> set (processes (managers group_world ! 0)). proc_id (tasks group_world ! x) \<noteq> 7"
    by code_simp
  have c: "count_list (processes (managers group_world ! 0)) 3 = 1" by code_simp
  note r7 = removeProcess_filters [OF h, of 7]
  note r1 = removeProcess_filters [OF h, of 1 1]
  from r7 k7 have n: "snd (removeProcess 0 7 group_world) = group_world" by blast
  from r1 have f: "fst (removeProcess 0 1 group_world) = 0" "fst (addProcess 0 1 group_world) = 0"
    by blast+
  from r1 have "\<forall>x \<in> set (processes (managers (snd (removeProcess 0 1 group_world)) ! 0)).
      proc_id (tasks group_world ! x) \<noteq> 1"
    by blast
  then have k3: "proc_id (tasks group_world ! 3) \<noteq> 1" by (simp add: b)
  from r1 have "subseq (processes (managers (snd (removeProcess 0 1 group_world)) ! 0))
      (processes (managers group_world ! 0))"
    by blast
  then have sq: "subseq [1, 3] (processes (managers group_world ! 0))" by (simp only: b)
  from r1 k3 have "count_list (processes (managers (snd (removeProcess 0 1 group_world)) ! 0)) 3
      = count_list (processes (managers group_world ! 0)) 3"
    by blast
  then have cn: "count_list (processes (managers (snd (removeProcess 0 1 group_world)) ! 0)) 3 = 1"
    by (simp only: c)
  have ne: "(1::nat) \<noteq> 0" by simp
  from r1 ne have o: "managers (snd (removeProcess 0 1 group_world)) ! 1 = managers group_world ! 1"
    by blast
  from h a f b k3 sq cn o n show ?thesis by blast
qed

end
